theory Spec2Isabelle
  imports Complex_Main "HOL-Library.Multiset" "HOL-Library.Log_Nat"
begin

section \<open>Dense linear solver: \<open>LUDecomp_implementation.h\<close>\<close>

text \<open>
  The C++ templates work on any type with \<open>operator[]\<close>: a \<open>SquareMatrix\<close> read as
  \<open>mat[i][j]\<close>, raw pointers \<open>int* perm\<close> and \<open>T* x\<close>. They are modelled as index
  functions (stores from index to value); apart from line 54 the code only reads and writes
  indices below \<open>num_rows\<close>. \<open>double\<close> is modelled by \<open>real\<close>: all results below are statements about
  exact arithmetic, not about rounding. A counted loop \<open>for (i = a; i < b; ++i)\<close> whose
  body changes neither \<open>i\<close> nor \<open>b\<close> is the \<open>fold\<close> of its body over \<open>[a..<b]\<close>; the
  loops that can throw are recursive functions over the same index list that stop at the
  first error.
\<close>

type_synonym SquareMatrix = "nat \<Rightarrow> nat \<Rightarrow> real"

text \<open>The two \<open>std::runtime_error\<close>s of \<open>LUDecomp\<close>: "Null row detected" and "singular matrix".\<close>

datatype lu_error = NullRow | Singular

record lu_state =
  mat :: SquareMatrix
  perm :: "nat \<Rightarrow> nat"
  parity :: bool
  scaling :: "nat \<Rightarrow> real"

text \<open>\<open>mat[i][j] = v\<close>\<close>

definition set_entry :: "SquareMatrix \<Rightarrow> nat \<Rightarrow> nat \<Rightarrow> real \<Rightarrow> SquareMatrix" where
  "set_entry m i j v = m(i := (m i)(j := v))"

text \<open>
  Line 54, \<open>for (int k = 0; k < num_rows; perm[k] = k++);\<close>. The assignment is the
  increment expression of the loop. Its right operand \<open>k++\<close> is evaluated before its left
  operand \<open>perm[k]\<close> (the order C++17 fixes for an assignment; earlier standards leave the
  expression undefined): \<open>k++\<close> yields the old \<open>k\<close> and advances \<open>k\<close>, and the old value is
  stored at the new index. So the pass with \<open>k\<close> stores \<open>k\<close> in \<open>perm[k + 1]\<close>: \<open>perm[0]\<close>
  keeps what the caller left there, and the last pass writes \<open>perm[num_rows]\<close>, one entry
  behind the \<open>num_rows\<close> entries of the array (an update of the index function at
  \<open>num_rows\<close>, which nothing reads afterwards). The comment of the line says "filling out
  perm with sequence 0, 1,...".
\<close>

definition init_perm :: "nat \<Rightarrow> (nat \<Rightarrow> nat) \<Rightarrow> (nat \<Rightarrow> nat)" where
  "init_perm num_rows perm0 = fold (\<lambda>k p. p(k + 1 := k)) [0..<num_rows] perm0"

text \<open>Lines 59-64: the largest absolute entry of row \<open>i\<close>, accumulated in \<open>scaling[i]\<close>.\<close>

definition row_scan :: "SquareMatrix \<Rightarrow> nat \<Rightarrow> nat \<Rightarrow> (nat \<Rightarrow> real) \<Rightarrow> (nat \<Rightarrow> real)" where
  "row_scan m num_cols i sc =
     fold (\<lambda>j sc. let temp = \<bar>m i j\<bar> in if temp > sc i then sc(i := temp) else sc)
       [0..<num_cols] sc"

text \<open>Lines 58-70: the scaling pass over the rows, throwing at the first null row.\<close>

fun scaling_pass :: "SquareMatrix \<Rightarrow> nat \<Rightarrow> nat list \<Rightarrow> (nat \<Rightarrow> real) \<Rightarrow> lu_error + (nat \<Rightarrow> real)" where
  "scaling_pass m num_cols [] sc = Inr sc"
| "scaling_pass m num_cols (i # rows) sc =
     (let sc1 = row_scan m num_cols i sc in
      if sc1 i = 0 then Inl NullRow
      else scaling_pass m num_cols rows (sc1(i := 1 / sc1 i)))"

text \<open>
  Lines 76-79 and 87-90: \<open>sum = mat[i][j]; for (k = 0; k <= m-1; ++k) sum -= mat[i][k] * mat[k][j]\<close>,
  with \<open>m = i\<close> above the diagonal and \<open>m = j\<close> from the diagonal down.
\<close>

definition elim_sum :: "SquareMatrix \<Rightarrow> nat \<Rightarrow> nat \<Rightarrow> nat \<Rightarrow> real" where
  "elim_sum m i j bound = fold (\<lambda>k sum. sum - m i k * m k j) [0..<bound] (m i j)"

text \<open>Lines 75-81: the entries of the UPPER matrix in column \<open>j\<close>, written in place.\<close>

definition upper_column :: "nat \<Rightarrow> SquareMatrix \<Rightarrow> SquareMatrix" where
  "upper_column j m = fold (\<lambda>i m. set_entry m i j (elim_sum m i j i)) [0..<j] m"

text \<open>
  Lines 84-97: the rest of column \<open>j\<close> before division, and the search of the pivot. The
  state of the loop is the matrix, \<open>pivot_val\<close> and \<open>pivot_row\<close>.
\<close>

definition pivot_step :: "nat \<Rightarrow> (nat \<Rightarrow> real) \<Rightarrow> nat \<Rightarrow> SquareMatrix \<times> real \<times> nat \<Rightarrow> SquareMatrix \<times> real \<times> nat" where
  "pivot_step j sc i st =
     (case st of (m, pivot_val, pivot_row) \<Rightarrow>
        let sum = elim_sum m i j j;
            m' = set_entry m i j sum;
            temp = \<bar>sum * sc i\<bar>
        in if temp > pivot_val then (m', temp, i) else (m', pivot_val, pivot_row))"

definition pivot_column :: "nat \<Rightarrow> nat \<Rightarrow> (nat \<Rightarrow> real) \<Rightarrow> SquareMatrix \<Rightarrow> SquareMatrix \<times> real \<times> nat" where
  "pivot_column num_rows j sc m = fold (pivot_step j sc) [j..<num_rows] (m, 0, j)"

text \<open>Lines 105-107: \<open>std::swap(mat[pivot_row][k], mat[j][k])\<close> for every column \<open>k\<close>.\<close>

definition swap_rows :: "nat \<Rightarrow> nat \<Rightarrow> nat \<Rightarrow> SquareMatrix \<Rightarrow> SquareMatrix" where
  "swap_rows num_cols pivot_row j m =
     fold (\<lambda>k m. set_entry (set_entry m pivot_row k (m j k)) j k (m pivot_row k))
       [0..<num_cols] m"

text \<open>Lines 104-111: the row exchange, with its bookkeeping.\<close>

definition permute_rows :: "nat \<Rightarrow> nat \<Rightarrow> nat \<Rightarrow> lu_state \<Rightarrow> lu_state" where
  "permute_rows num_cols pivot_row j s =
     (if pivot_row \<noteq> j then
        \<lparr>mat = swap_rows num_cols pivot_row j (mat s),
         perm = (perm s)(j := perm s pivot_row, pivot_row := perm s j),
         parity = (\<not> parity s),
         scaling = (scaling s)(j := scaling s pivot_row, pivot_row := scaling s j)\<rparr>
      else s)"

text \<open>Lines 113-119: the LOWER entries of column \<open>j\<close> are multiplied by \<open>1 / mat[j][j]\<close>.\<close>

definition divide_column :: "nat \<Rightarrow> nat \<Rightarrow> SquareMatrix \<Rightarrow> SquareMatrix" where
  "divide_column num_rows j m =
     (if j < num_rows - 1 then
        (let pivot_val = 1 / m j j
         in fold (\<lambda>i m. set_entry m i j (m i j * pivot_val)) [j + 1..<num_rows] m)
      else m)"

text \<open>Lines 73-120, one iteration of the loop over the columns.\<close>

definition crout_column :: "nat \<Rightarrow> nat \<Rightarrow> lu_state \<Rightarrow> lu_error + lu_state" where
  "crout_column num_rows j s =
     (case pivot_column num_rows j (scaling s) (upper_column j (mat s)) of
        (m2, pivot_val, pivot_row) \<Rightarrow>
          if m2 pivot_row j = 0 then Inl Singular
          else
            let s3 = permute_rows num_rows pivot_row j (s\<lparr>mat := m2\<rparr>)
            in Inr (s3\<lparr>mat := divide_column num_rows j (mat s3)\<rparr>))"

fun crout_loop :: "nat \<Rightarrow> nat list \<Rightarrow> lu_state \<Rightarrow> lu_error + lu_state" where
  "crout_loop num_rows [] s = Inr s"
| "crout_loop num_rows (j # cols) s =
     (case crout_column num_rows j s of
        Inl e \<Rightarrow> Inl e
      | Inr s' \<Rightarrow> crout_loop num_rows cols s')"

text \<open>
  \<open>LUDecomp(mat, num_rows, perm, parity)\<close>. The arguments are the matrix and the previous
  content of the array \<open>perm\<close> points to; the result is the error thrown, or the final
  matrix, permutation array and parity flag.
\<close>

definition LUDecomp :: "SquareMatrix \<Rightarrow> nat \<Rightarrow> (nat \<Rightarrow> nat) \<Rightarrow> lu_error + (SquareMatrix \<times> (nat \<Rightarrow> nat) \<times> bool)" where
  "LUDecomp m num_rows perm0 =
     (case scaling_pass m num_rows [0..<num_rows] (\<lambda>_. 0) of
        Inl e \<Rightarrow> Inl e
      | Inr sc \<Rightarrow>
          (case crout_loop num_rows [0..<num_rows]
                  \<lparr>mat = m, perm = init_perm num_rows perm0, parity = True, scaling = sc\<rparr> of
             Inl e \<Rightarrow> Inl e
           | Inr s \<Rightarrow> Inr (mat s, perm s, parity s)))"

text \<open>Lines 145-153, the scalar \<open>forwardSubstitution\<close>.\<close>

definition forwardSubstitution :: "SquareMatrix \<Rightarrow> (nat \<Rightarrow> real) \<Rightarrow> nat \<Rightarrow> (nat \<Rightarrow> real)" where
  "forwardSubstitution A x num_unknowns =
     fold (\<lambda>i x. fold (\<lambda>j x. x(i := x i - A i j * x j)) [0..<i] x) [1..<num_unknowns] x"

text \<open>
  Lines 172-182, the scalar \<open>backwardSubstitution\<close>. The loop \<open>for (i = num_unknowns - 2; i >= 0; --i)\<close>
  runs over \<open>[0..<num_unknowns - 1]\<close> backwards. The source indexes \<open>x[num_unknowns-1]\<close>, so it
  needs \<open>num_unknowns \<ge> 1\<close>.
\<close>

definition backwardSubstitution :: "SquareMatrix \<Rightarrow> (nat \<Rightarrow> real) \<Rightarrow> nat \<Rightarrow> (nat \<Rightarrow> real)" where
  "backwardSubstitution A x num_unknowns =
     (let x1 = x(num_unknowns - 1 := x (num_unknowns - 1) / A (num_unknowns - 1) (num_unknowns - 1))
      in fold (\<lambda>i x.
            let x' = fold (\<lambda>j x. x(i := x i - A i j * x j)) [i + 1..<num_unknowns] x
            in x'(i := x' i / A i i))
          (rev [0..<num_unknowns - 1]) x1)"

text \<open>
  Lines 126-141, \<open>LUsolveSystem\<close>: \<open>permutation\<close> is a fresh \<open>std::vector<int>\<close> (all zero),
  \<open>vec_old\<close> a copy of \<open>vec\<close>, and the loop swaps \<open>vec[i]\<close> with \<open>vec_old[permutation[i]]\<close>.
\<close>

definition permute_rhs :: "nat \<Rightarrow> (nat \<Rightarrow> nat) \<Rightarrow> (nat \<Rightarrow> real) \<Rightarrow> (nat \<Rightarrow> real)" where
  "permute_rhs num_unknowns permutation vec =
     fst (fold (\<lambda>i (v, vec_old).
                 (v(i := vec_old (permutation i)), vec_old(permutation i := v i)))
            [0..<num_unknowns] (vec, vec))"

definition LUsolveSystem :: "SquareMatrix \<Rightarrow> nat \<Rightarrow> (nat \<Rightarrow> real) \<Rightarrow> lu_error + (SquareMatrix \<times> (nat \<Rightarrow> real))" where
  "LUsolveSystem A num_unknowns vec =
     (case LUDecomp A num_unknowns (\<lambda>_. 0) of
        Inl e \<Rightarrow> Inl e
      | Inr (A', permutation, _) \<Rightarrow>
          Inr (A', backwardSubstitution A'
                     (forwardSubstitution A' (permute_rhs num_unknowns permutation vec) num_unknowns)
                     num_unknowns))"

text \<open>
  Lines 157-168 and 186-203, the overloads for a right-hand side that is an array of
  \<open>std::vector<double>\<close>: \<open>xdim\<close> (\<open>dim\<close> in the source) is the size of \<open>x[0]\<close>, and the
  innermost loop runs over the components \<open>dd\<close>. The source indexes every \<open>x[i]\<close> up to
  that size, so all of them need that size.
\<close>

definition axpy_components :: "nat \<Rightarrow> real \<Rightarrow> nat \<Rightarrow> nat \<Rightarrow> (nat \<Rightarrow> real list) \<Rightarrow> (nat \<Rightarrow> real list)" where
  "axpy_components xdim a i j x =
     fold (\<lambda>dd x. x(i := (x i)[dd := x i ! dd - a * x j ! dd])) [0..<xdim] x"

definition divide_components :: "nat \<Rightarrow> real \<Rightarrow> nat \<Rightarrow> (nat \<Rightarrow> real list) \<Rightarrow> (nat \<Rightarrow> real list)" where
  "divide_components xdim a i x =
     fold (\<lambda>dd x. x(i := (x i)[dd := x i ! dd / a])) [0..<xdim] x"

definition forwardSubstitution_vec :: "SquareMatrix \<Rightarrow> (nat \<Rightarrow> real list) \<Rightarrow> nat \<Rightarrow> (nat \<Rightarrow> real list)" where
  "forwardSubstitution_vec A x num_unknowns =
     (let xdim = length (x 0)
      in fold (\<lambda>i x. fold (\<lambda>j x. axpy_components xdim (A i j) i j x) [0..<i] x)
           [1..<num_unknowns] x)"

definition backwardSubstitution_vec :: "SquareMatrix \<Rightarrow> (nat \<Rightarrow> real list) \<Rightarrow> nat \<Rightarrow> (nat \<Rightarrow> real list)" where
  "backwardSubstitution_vec A x num_unknowns =
     (let xdim = length (x 0);
          x1 = divide_components xdim (A (num_unknowns - 1) (num_unknowns - 1)) (num_unknowns - 1) x
      in fold (\<lambda>i x.
            let x' = fold (\<lambda>j x. axpy_components xdim (A i j) i j x) [i + 1..<num_unknowns] x
            in divide_components xdim (A i i) i x')
          (rev [0..<num_unknowns - 1]) x1)"

subsection \<open>Matrices\<close>

text \<open>
  The product of two \<open>n \<times> n\<close> matrices, a matrix applied to a vector, and the rows of
  \<open>A\<close> taken in the order \<open>p\<close> records (\<open>P\<cdot>A\<close>).
\<close>

definition mat_mult :: "nat \<Rightarrow> SquareMatrix \<Rightarrow> SquareMatrix \<Rightarrow> SquareMatrix" where
  "mat_mult n A B i c = (\<Sum>k<n. A i k * B k c)"

definition mat_vec :: "nat \<Rightarrow> SquareMatrix \<Rightarrow> (nat \<Rightarrow> real) \<Rightarrow> (nat \<Rightarrow> real)" where
  "mat_vec n A x i = (\<Sum>k<n. A i k * x k)"

definition permute_matrix :: "(nat \<Rightarrow> nat) \<Rightarrow> SquareMatrix \<Rightarrow> SquareMatrix" where
  "permute_matrix p A i = A (p i)"

text \<open>
  The factors read from the matrix \<open>LUDecomp\<close> leaves: \<open>L\<close> is the strict lower triangle with
  a unit diagonal, \<open>U\<close> the upper triangle with the diagonal.
\<close>

definition lower_part :: "SquareMatrix \<Rightarrow> SquareMatrix" where
  "lower_part m i k = (if k < i then m i k else if k = i then 1 else 0)"

definition upper_part :: "SquareMatrix \<Rightarrow> SquareMatrix" where
  "upper_part m k c = (if k \<le> c then m k c else 0)"

text \<open>The largest absolute entry of row \<open>i\<close>.\<close>

definition row_max :: "nat \<Rightarrow> SquareMatrix \<Rightarrow> nat \<Rightarrow> real" where
  "row_max n A i = Max ((\<lambda>j. \<bar>A i j\<bar>) ` {..<n})"

text \<open>The scaling factors the scaling pass leaves when no row is null.\<close>

definition row_scaling :: "nat \<Rightarrow> SquareMatrix \<Rightarrow> (nat \<Rightarrow> real)" where
  "row_scaling n A = (\<lambda>i. if i < n then 1 / row_max n A i else 0)"

subsection \<open>Observations of the loop over the columns\<close>

text \<open>The state \<open>LUDecomp\<close> is in when the loop over the columns starts.\<close>

definition initial_state :: "SquareMatrix \<Rightarrow> nat \<Rightarrow> (nat \<Rightarrow> nat) \<Rightarrow> (nat \<Rightarrow> real) \<Rightarrow> lu_state" where
  "initial_state m num_rows perm0 sc =
     \<lparr>mat = m, perm = init_perm num_rows perm0, parity = True, scaling = sc\<rparr>"

text \<open>
  The value lines 87-91 leave in \<open>mat[r][j]\<close> for a row \<open>r\<close> from the diagonal down, read
  from the matrix \<open>m\<close> as it stands when the pivot loop starts.
\<close>

definition column_value :: "SquareMatrix \<Rightarrow> nat \<Rightarrow> nat \<Rightarrow> real" where
  "column_value m j r = m r j - (\<Sum>k<j. m r k * m k j)"

text \<open>Line 92: \<open>fabs(sum * scaling[i])\<close>, the score the pivot search compares.\<close>

definition pivot_score :: "SquareMatrix \<Rightarrow> (nat \<Rightarrow> real) \<Rightarrow> nat \<Rightarrow> nat \<Rightarrow> real" where
  "pivot_score m sc j i = \<bar>column_value m j i * sc i\<bar>"

text \<open>
  The matrix after the elimination sums of column \<open>j\<close> (lines 75-97), before the rows are
  exchanged, and the pivot row the search selects, both read from the state \<open>s\<close> the column
  starts in.
\<close>

definition eliminated :: "nat \<Rightarrow> nat \<Rightarrow> lu_state \<Rightarrow> SquareMatrix" where
  "eliminated num_rows j s = fst (pivot_column num_rows j (scaling s) (upper_column j (mat s)))"

definition pivot_row_of :: "nat \<Rightarrow> nat \<Rightarrow> lu_state \<Rightarrow> nat" where
  "pivot_row_of num_rows j s =
     snd (snd (pivot_column num_rows j (scaling s) (upper_column j (mat s))))"

text \<open>Line 99: the value \<open>mat[pivot_row][j]\<close> that is compared with zero.\<close>

definition selected_pivot :: "nat \<Rightarrow> nat \<Rightarrow> lu_state \<Rightarrow> real" where
  "selected_pivot num_rows j s = eliminated num_rows j s (pivot_row_of num_rows j s) j"

text \<open>The exchange of the indices \<open>p\<close> and \<open>j\<close>.\<close>

definition exchange :: "nat \<Rightarrow> nat \<Rightarrow> nat \<Rightarrow> nat" where
  "exchange p j r = (if r = j then p else if r = p then j else r)"

text \<open>
  What holds when the loop over the columns reaches column \<open>j\<close>, of a state whose field
  \<open>perm\<close> holds, for every position, the index of the input row stored there; \<open>A0\<close> is the
  matrix \<open>LUDecomp\<close> received and \<open>sc0\<close> the scaling factors of its rows. The field is a
  permutation, the scaling factors have followed the rows, the columns from \<open>j\<close> on still
  hold the entries of the permuted input, and the columns before \<open>j\<close> hold the factors: on
  and above the diagonal the entry of \<open>U\<close>, below it the multiplier of \<open>L\<close>. The array
  \<open>perm\<close> of the program holds these indices only if it starts from the sequence 0, 1, ...;
  the properties below put the indices in the place of the array.
\<close>

definition lu_inv :: "nat \<Rightarrow> SquareMatrix \<Rightarrow> (nat \<Rightarrow> real) \<Rightarrow> nat \<Rightarrow> lu_state \<Rightarrow> bool" where
  "lu_inv n A0 sc0 j s \<longleftrightarrow>
     bij_betw (perm s) {..<n} {..<n}
   \<and> (\<forall>i<n. scaling s i = sc0 (perm s i))
   \<and> (\<forall>i<n. \<forall>c<n. j \<le> c \<longrightarrow> mat s i c = A0 (perm s i) c)
   \<and> (\<forall>c<j. \<forall>i\<le>c. A0 (perm s i) c = (\<Sum>k<i. mat s i k * mat s k c) + mat s i c)
   \<and> (\<forall>c<j. \<forall>i<n. c < i \<longrightarrow>
          A0 (perm s i) c = (\<Sum>k<c. mat s i k * mat s k c) + mat s i c * mat s c c)
   \<and> (\<forall>c<j. mat s c c \<noteq> 0)"

text \<open>
  The divisors of \<open>backwardSubstitution\<close>, in the order the code divides by them: line 175
  divides by \<open>A[num_unknowns-1][num_unknowns-1]\<close>, line 180 by \<open>A[i][i]\<close> for \<open>i\<close> from
  \<open>num_unknowns-2\<close> down to \<open>0\<close>.
\<close>

definition backwardSubstitution_divisors :: "SquareMatrix \<Rightarrow> nat \<Rightarrow> real list" where
  "backwardSubstitution_divisors A num_unknowns =
     A (num_unknowns - 1) (num_unknowns - 1) # map (\<lambda>i. A i i) (rev [0..<num_unknowns - 1])"

text \<open>
  The relation between the array of vectors \<open>x\<close> and the scalar array \<open>y\<close> that is its
  component \<open>dd\<close>: the first \<open>n\<close> vectors have the common size \<open>xdim\<close>, and \<open>y[k] = x[k][dd]\<close>.
\<close>

definition same_component :: "nat \<Rightarrow> nat \<Rightarrow> nat \<Rightarrow> (nat \<Rightarrow> real list) \<Rightarrow> (nat \<Rightarrow> real) \<Rightarrow> bool" where
  "same_component n xdim dd x y \<longleftrightarrow> (\<forall>k<n. length (x k) = xdim) \<and> (\<forall>k. x k ! dd = y k)"

subsection \<open>Example inputs\<close>

text \<open>A matrix whose decomposition exchanges its two rows.\<close>

definition ex_A :: SquareMatrix where
  "ex_A = (\<lambda>i j. [[1, 2], [3, 4]] ! i ! j)"

text \<open>The \<open>2 \<times> 2\<close> identity matrix: its decomposition exchanges no rows and rounds nothing.\<close>

definition ex_id :: SquareMatrix where
  "ex_id = (\<lambda>i j. [[1, 0], [0, 1]] ! i ! j)"

text \<open>A right-hand side for \<open>ex_A\<close> and for \<open>ex_id\<close>.\<close>

definition ex_b :: "nat \<Rightarrow> real" where
  "ex_b = (\<lambda>i. [5, 11] ! i)"

text \<open>
  A matrix with a null row, a singular matrix without one, and a matrix whose only entry
  is tiny.
\<close>

definition ex_null :: SquareMatrix where
  "ex_null = (\<lambda>i j. [[1, 2], [0, 0]] ! i ! j)"

definition ex_singular :: SquareMatrix where
  "ex_singular = (\<lambda>i j. [[1, 2], [2, 4]] ! i ! j)"

definition ex_tiny :: SquareMatrix where
  "ex_tiny = (\<lambda>i j. 1 / 10 ^ 30)"

text \<open>A decomposed \<open>2 \<times> 2\<close> matrix and a right-hand side with three components.\<close>

definition ex_LU :: SquareMatrix where
  "ex_LU = (\<lambda>i j. [[3, 4], [1 / 3, 2 / 3]] ! i ! j)"

definition ex_rhs :: "nat \<Rightarrow> real list" where
  "ex_rhs = (\<lambda>i. [[6, 3, 0], [4, 5, 2]] ! i)"

section \<open>Sparse conjugate-gradient solver: class \<open>SolveCG\<close>\<close>

text \<open>
  The members of \<open>SolveCG\<close> that hold the attached matrix: \<open>A_\<close>, \<open>nn_\<close>, \<open>np_\<close>, \<open>irow_\<close> and
  \<open>jcol_\<close> (the tolerance, the iteration bound and the preconditioner are not read by
  \<open>matrixProduct\<close>). The \<open>std::vector\<close>s are lists; the indices, \<open>int\<close> in the source, are
  natural numbers.
\<close>

record SolveCG =
  cg_A :: "real list"
  cg_nn :: nat
  cg_np :: nat
  cg_irow :: "nat list"
  cg_jcol :: "nat list"

text \<open>
  \<open>SolveCG::matrixProduct(sx, sy)\<close>: \<open>sx\<close> and \<open>sy\<close> are random-access iterators over two
  distinct arrays, modelled as index functions; the result is the array behind \<open>sy\<close>. The
  products and the sums are the exact ones here (\<open>double\<close> read as \<open>real\<close>);
  \<open>matrixProduct_double\<close> below is the same loop with the rounding of \<open>double\<close>.
\<close>

definition matrixProduct :: "SolveCG \<Rightarrow> (nat \<Rightarrow> real) \<Rightarrow> (nat \<Rightarrow> real) \<Rightarrow> (nat \<Rightarrow> real)" where
  "matrixProduct s sx sy =
     fold (\<lambda>kj sy.
             fold (\<lambda>ki sy. sy(kj := sy kj + cg_A s ! ki * sx (cg_jcol s ! ki)))
               [cg_irow s ! kj..<cg_irow s ! (kj + 1)] (sy(kj := 0)))
       [0..<cg_nn s] sy"

text \<open>
  What the spec's data model asks of an attached structure: a row-start array of length
  \<open>n+1\<close> into value and column-index arrays of \<open>np_\<close> entries each.
\<close>

definition csr_wf :: "SolveCG \<Rightarrow> bool" where
  "csr_wf s \<longleftrightarrow>
     length (cg_irow s) = cg_nn s + 1 \<and> length (cg_A s) = cg_np s \<and>
     length (cg_jcol s) = cg_np s \<and> list_all (\<lambda>k. cg_irow s ! k \<le> cg_np s) [0..<cg_nn s + 1]"

text \<open>The entries of row \<open>k\<close>, each value with its column index, in storage order.\<close>

definition csr_row :: "SolveCG \<Rightarrow> nat \<Rightarrow> (real \<times> nat) list" where
  "csr_row s k = map (\<lambda>ki. (cg_A s ! ki, cg_jcol s ! ki)) [cg_irow s ! k..<cg_irow s ! (k + 1)]"

text \<open>
  Two attached structures for the matrix with rows \<open>(2, 1)\<close> and \<open>(0, 3)\<close>; the second
  stores the entries of row \<open>0\<close> in the other order.
\<close>

definition cg_example :: SolveCG where
  "cg_example = \<lparr>cg_A = [2, 1, 3], cg_nn = 2, cg_np = 3, cg_irow = [0, 2, 3], cg_jcol = [0, 1, 1]\<rparr>"

definition cg_example' :: SolveCG where
  "cg_example' = \<lparr>cg_A = [1, 2, 3], cg_nn = 2, cg_np = 3, cg_irow = [0, 2, 3], cg_jcol = [1, 0, 1]\<rparr>"

text \<open>
  The arithmetic of \<open>double\<close> (IEEE 754 binary64, round to nearest, ties to even), for finite
  values in the normal range: a nonzero real \<open>x\<close> with \<open>2^e \<le> |x| < 2^(e+1)\<close> is rounded to the
  nearest multiple of \<open>2^(e-52)\<close>, and to the even multiple when two are as near. Overflow,
  subnormal numbers, infinities and NaN are not modelled. \<open>double_exponent x\<close> is that \<open>e\<close>,
  computed from the number of binary digits (\<open>bitlen\<close>) of \<open>\<lfloor>|x|\<rfloor>\<close> when \<open>|x| \<ge> 1\<close> and of
  \<open>\<lceil>1 / |x|\<rceil> - 1\<close> otherwise.
\<close>

definition double_exponent :: "real \<Rightarrow> int" where
  "double_exponent x =
     (if 1 \<le> \<bar>x\<bar> then bitlen \<lfloor>\<bar>x\<bar>\<rfloor> - 1 else - bitlen (\<lceil>1 / \<bar>x\<bar>\<rceil> - 1))"

definition double_ulp :: "real \<Rightarrow> real" where
  "double_ulp x =
     (let e = double_exponent x in if 52 \<le> e then 2 ^ nat (e - 52) else 1 / 2 ^ nat (52 - e))"

definition round_half_even :: "real \<Rightarrow> int" where
  "round_half_even y =
     (let f = \<lfloor>y\<rfloor> in
      if y - of_int f < 1 / 2 then f
      else if 1 / 2 < y - of_int f then f + 1
      else if even f then f else f + 1)"

definition round_double :: "real \<Rightarrow> real" where
  "round_double x =
     (if x = 0 then 0 else of_int (round_half_even (x / double_ulp x)) * double_ulp x)"

text \<open>
  \<open>SolveCG::matrixProduct(sx, sy)\<close> in the arithmetic of \<open>double\<close>: the same two loops, with
  the product \<open>A_[ki] * sx[jcol_[ki]]\<close> and the sum \<open>sy[kj] += ...\<close> each rounded to \<open>double\<close>
  (\<open>sx\<close> and \<open>sy\<close> are arrays of \<open>double\<close>; every operation is rounded once, with no
  fused multiply-add and no wider intermediate format).
\<close>

definition matrixProduct_double :: "SolveCG \<Rightarrow> (nat \<Rightarrow> real) \<Rightarrow> (nat \<Rightarrow> real) \<Rightarrow> (nat \<Rightarrow> real)" where
  "matrixProduct_double s sx sy =
     fold (\<lambda>kj sy.
             fold (\<lambda>ki sy. sy(kj := round_double
                                     (sy kj + round_double (cg_A s ! ki * sx (cg_jcol s ! ki)))))
               [cg_irow s ! kj..<cg_irow s ! (kj + 1)] (sy(kj := 0)))
       [0..<cg_nn s] sy"

text \<open>
  Two attached structures for the symmetric positive-definite matrix with the rows
  \<open>(2, 1, 1)\<close>, \<open>(1, 2, 1)\<close> and \<open>(1, 1, 2)\<close>; the second stores the entries of row \<open>0\<close> in the
  order of the columns 0, 2, 1. The vector \<open>cg_sx\<close> is \<open>(5\<cdot>10^15, 1, -10^16)\<close>; its
  components, and the products of row \<open>0\<close> with them (\<open>10^16\<close>, \<open>1\<close> and \<open>-10^16\<close>), are values
  of \<open>double\<close>.
\<close>

definition cg_spd :: SolveCG where
  "cg_spd = \<lparr>cg_A = [2, 1, 1, 1, 2, 1, 1, 1, 2], cg_nn = 3, cg_np = 9,
              cg_irow = [0, 3, 6, 9], cg_jcol = [0, 1, 2, 0, 1, 2, 0, 1, 2]\<rparr>"

definition cg_spd' :: SolveCG where
  "cg_spd' = \<lparr>cg_A = [2, 1, 1, 1, 2, 1, 1, 1, 2], cg_nn = 3, cg_np = 9,
               cg_irow = [0, 3, 6, 9], cg_jcol = [0, 2, 1, 0, 1, 2, 0, 1, 2]\<rparr>"

definition cg_sx :: "nat \<Rightarrow> real" where
  "cg_sx = (\<lambda>j. [5 * 10 ^ 15, 1, - (10 ^ 16)] ! j)"




section \<open>Cross-tangent offset evaluator: class \<open>CrossTangentOffset\<close>\<close>

text \<open>The opaque \<open>Point\<close>, with the componentwise sum and the product by a scalar.\<close>

type_synonym Point = "real list"

definition pt_add :: "Point \<Rightarrow> Point \<Rightarrow> Point" where
  "pt_add p q = map2 (+) p q"

definition pt_scale :: "real \<Rightarrow> Point \<Rightarrow> Point" where
  "pt_scale a p = map ((*) a) p"

text \<open>
  The two cross-tangent curves and the two blending functions (curves of dimension 1) the
  constructor receives, each as the function from the parameter to its value.
\<close>

record CrossTangentOffset =
  tangcv1 :: "real \<Rightarrow> Point"
  tangcv2 :: "real \<Rightarrow> Point"
  blend1 :: "real \<Rightarrow> real"
  blend2 :: "real \<Rightarrow> real"

text \<open>
  Modelled from the spec: the body of \<open>CrossTangentOffset::evalcrtan(double t)\<close> is not among
  the sources, only its declaration is. The spec: the evaluator "evaluates two input
  cross-tangent curves and two scalar blending-function curves at that parameter, forms the
  blended tangent direction as the weighted sum"; the constructor's documentation: the curves
  are "evaluated at the specified parameter, multiplied by their respective blending functions
  and added together".
\<close>

definition evalcrtan :: "CrossTangentOffset \<Rightarrow> real \<Rightarrow> Point" where
  "evalcrtan c t =
     pt_add (pt_scale (blend1 c t) (tangcv1 c t)) (pt_scale (blend2 c t) (tangcv2 c t))"

text \<open>Two equal cross-tangent curves with blending functions identically 1.\<close>

definition cto_example :: CrossTangentOffset where
  "cto_example = \<lparr>tangcv1 = (\<lambda>t. [t, 1, 0]), tangcv2 = (\<lambda>t. [t, 1, 0]),
                   blend1 = (\<lambda>_. 1), blend2 = (\<lambda>_. 1)\<rparr>"

section \<open>Properties of the dense solver\<close>

subsection \<open>Counted loops and their invariants\<close>

lemma fold_upt_invariant:
  assumes "P a s"
    and "\<And>i t. a \<le> i \<Longrightarrow> i < b \<Longrightarrow> P i t \<Longrightarrow> P (Suc i) (f i t)"
    and "a \<le> b"
  shows "P b (fold f [a..<b] s)"
  using assms(3,2)
proof (induction b)
  case 0
  with assms(1) show ?case by simp
next
  case (Suc b)
  show ?case
  proof (cases "a \<le> b")
    case True
    have "P b (fold f [a..<b] s)"
      using Suc.IH [OF True] Suc.prems(2) by simp
    then have "P (Suc b) (f b (fold f [a..<b] s))"
      using Suc.prems(2) True by simp
    with True show ?thesis by simp
  next
    case False
    with Suc.prems(1) have "a = Suc b" by simp
    with assms(1) show ?thesis by simp
  qed
qed

lemma set_entry_apply [simp]:
  "set_entry m i j v a b = (if a = i \<and> b = j then v else m a b)"
  by (simp add: set_entry_def)

lemma elim_sum_eq: "elim_sum m i j b = m i j - (\<Sum>k<b. m i k * m k j)"
  unfolding elim_sum_def by (induction b) simp_all

lemma init_perm_apply: "init_perm n p k = (if 0 < k \<and> k \<le> n then k - 1 else p k)"
  unfolding init_perm_def by (induction n) auto

text \<open>upper_column\<close>

lemma upper_column_frame:
  "c \<noteq> j \<or> j \<le> r \<Longrightarrow> upper_column j m r c = m r c"
proof -
  have "\<forall>r c. c \<noteq> j \<or> j \<le> r \<longrightarrow>
          fold (\<lambda>i m. set_entry m i j (elim_sum m i j i)) [0..<j] m r c = m r c"
    by (rule fold_upt_invariant [where P = "\<lambda>b t. \<forall>r c. c \<noteq> j \<or> b \<le> r \<longrightarrow> t r c = m r c"])
       auto
  then show "c \<noteq> j \<or> j \<le> r \<Longrightarrow> upper_column j m r c = m r c"
    by (simp add: upper_column_def)
qed

lemma upper_column_value:
  assumes "r < j"
  shows "upper_column j m r j = m r j - (\<Sum>k<r. m r k * upper_column j m k j)"
proof -
  let ?P = "\<lambda>b t. (\<forall>r c. c \<noteq> j \<or> b \<le> r \<longrightarrow> t r c = m r c)
                \<and> (\<forall>r<b. t r j = m r j - (\<Sum>k<r. m r k * t k j))"
  have "?P j (fold (\<lambda>i m. set_entry m i j (elim_sum m i j i)) [0..<j] m)"
  proof (rule fold_upt_invariant [where P = ?P])
    show "?P 0 m" by simp
  next
    fix i t assume i: "0 \<le> i" "i < j" and P: "?P i t"
    let ?t' = "set_entry t i j (elim_sum t i j i)"
    have frame: "\<forall>r c. c \<noteq> j \<or> Suc i \<le> r \<longrightarrow> ?t' r c = m r c"
      using P by auto
    have old: "?t' k j = t k j" if "k < i" for k using that by simp
    have "?t' r j = m r j - (\<Sum>k<r. m r k * ?t' k j)" if "r < Suc i" for r
    proof (cases "r = i")
      case True
      have "?t' i j = t i j - (\<Sum>k<i. t i k * t k j)" by (simp add: elim_sum_eq)
      also have "t i j = m i j" using P by simp
      also have "(\<Sum>k<i. t i k * t k j) = (\<Sum>k<i. m i k * ?t' k j)"
        using P i by (intro sum.cong) auto
      finally show ?thesis using True by simp
    next
      case False
      with that have ri: "r < i" by simp
      have "?t' r j = t r j" using ri by simp
      also have "\<dots> = m r j - (\<Sum>k<r. m r k * t k j)" using P ri by simp
      also have "(\<Sum>k<r. m r k * t k j) = (\<Sum>k<r. m r k * ?t' k j)"
        using ri by (intro sum.cong) auto
      finally show ?thesis .
    qed
    with frame show "?P (Suc i) ?t'" by blast
  qed simp
  with assms show ?thesis by (simp add: upper_column_def)
qed

subsection \<open>The pivot search\<close>

text \<open>pivot_column\<close>

lemma pivot_score_nonneg: "0 \<le> pivot_score m sc j i"
  by (simp add: pivot_score_def)

lemma pivot_column_invariant:
  assumes "j \<le> n"
  shows "case pivot_column n j sc m of (t, pv, pr) \<Rightarrow>
           (\<forall>r c. t r c = (if c = j \<and> j \<le> r \<and> r < n then column_value m j r else m r c))
         \<and> j \<le> pr \<and> 0 \<le> pv
         \<and> (\<forall>i. j \<le> i \<and> i < n \<longrightarrow> pivot_score m sc j i \<le> pv)
         \<and> (0 < pv \<longrightarrow> pr < n \<and> pivot_score m sc j pr = pv
                \<and> (\<forall>i. j \<le> i \<and> i < pr \<longrightarrow> pivot_score m sc j i < pv))
         \<and> (pv = 0 \<longrightarrow> pr = j)"
  unfolding pivot_column_def
proof (rule fold_upt_invariant [where P = "\<lambda>b st. case st of (t, pv, pr) \<Rightarrow>
           (\<forall>r c. t r c = (if c = j \<and> j \<le> r \<and> r < b then column_value m j r else m r c))
         \<and> j \<le> pr \<and> 0 \<le> pv
         \<and> (\<forall>i. j \<le> i \<and> i < b \<longrightarrow> pivot_score m sc j i \<le> pv)
         \<and> (0 < pv \<longrightarrow> pr < b \<and> pivot_score m sc j pr = pv
                \<and> (\<forall>i. j \<le> i \<and> i < pr \<longrightarrow> pivot_score m sc j i < pv))
         \<and> (pv = 0 \<longrightarrow> pr = j)"])
  show "case (m, 0, j) of (t, pv, pr) \<Rightarrow>
           (\<forall>r c. t r c = (if c = j \<and> j \<le> r \<and> r < j then column_value m j r else m r c))
         \<and> j \<le> pr \<and> 0 \<le> pv
         \<and> (\<forall>i. j \<le> i \<and> i < j \<longrightarrow> pivot_score m sc j i \<le> pv)
         \<and> (0 < pv \<longrightarrow> pr < j \<and> pivot_score m sc j pr = pv
                \<and> (\<forall>i. j \<le> i \<and> i < pr \<longrightarrow> pivot_score m sc j i < pv))
         \<and> (pv = 0 \<longrightarrow> pr = j)"
    by simp
next
  show "j \<le> n" by fact
next
  fix i st
  assume i: "j \<le> i" "i < n"
    and P: "case st of (t, pv, pr) \<Rightarrow>
           (\<forall>r c. t r c = (if c = j \<and> j \<le> r \<and> r < i then column_value m j r else m r c))
         \<and> j \<le> pr \<and> 0 \<le> pv
         \<and> (\<forall>i'. j \<le> i' \<and> i' < i \<longrightarrow> pivot_score m sc j i' \<le> pv)
         \<and> (0 < pv \<longrightarrow> pr < i \<and> pivot_score m sc j pr = pv
                \<and> (\<forall>i'. j \<le> i' \<and> i' < pr \<longrightarrow> pivot_score m sc j i' < pv))
         \<and> (pv = 0 \<longrightarrow> pr = j)"
  obtain t pv pr where st: "st = (t, pv, pr)" by (cases st)
  from P st have t: "\<And>r c. t r c = (if c = j \<and> j \<le> r \<and> r < i then column_value m j r else m r c)"
    and pr: "j \<le> pr" and pv: "0 \<le> pv"
    and le: "\<And>i'. j \<le> i' \<Longrightarrow> i' < i \<Longrightarrow> pivot_score m sc j i' \<le> pv"
    and pos: "0 < pv \<Longrightarrow> pr < i \<and> pivot_score m sc j pr = pv
                \<and> (\<forall>i'. j \<le> i' \<and> i' < pr \<longrightarrow> pivot_score m sc j i' < pv)"
    and zero: "pv = 0 \<Longrightarrow> pr = j"
    by simp_all
  have es: "elim_sum t i j j = column_value m j i"
  proof -
    have "(\<Sum>k<j. t i k * t k j) = (\<Sum>k<j. m i k * m k j)"
      by (intro sum.cong) (simp_all add: t)
    then show ?thesis by (simp add: elim_sum_eq column_value_def t)
  qed
  have sc: "\<bar>column_value m j i * sc i\<bar> = pivot_score m sc j i"
    by (simp add: pivot_score_def)
  have t': "set_entry t i j (column_value m j i) r c
      = (if c = j \<and> j \<le> r \<and> r < Suc i then column_value m j r else m r c)" for r c
    using i by (auto simp: t)
  show "case pivot_step j sc i st of (t, pv, pr) \<Rightarrow>
           (\<forall>r c. t r c = (if c = j \<and> j \<le> r \<and> r < Suc i then column_value m j r else m r c))
         \<and> j \<le> pr \<and> 0 \<le> pv
         \<and> (\<forall>i'. j \<le> i' \<and> i' < Suc i \<longrightarrow> pivot_score m sc j i' \<le> pv)
         \<and> (0 < pv \<longrightarrow> pr < Suc i \<and> pivot_score m sc j pr = pv
                \<and> (\<forall>i'. j \<le> i' \<and> i' < pr \<longrightarrow> pivot_score m sc j i' < pv))
         \<and> (pv = 0 \<longrightarrow> pr = j)"
  proof (cases "pivot_score m sc j i > pv")
    case True
    have "pivot_score m sc j i' \<le> pivot_score m sc j i"
      if "j \<le> i'" "i' < Suc i" for i'
      using that le [of i'] True by (cases "i' = i") auto
    moreover have "pivot_score m sc j i' < pivot_score m sc j i"
      if "j \<le> i'" "i' < i" for i'
      using that le [of i'] True by auto
    ultimately show ?thesis
      using True i pv sc by (simp add: pivot_step_def st es Let_def t' del: set_entry_apply)
  next
    case False
    have "pivot_score m sc j i' \<le> pv" if "j \<le> i'" "i' < Suc i" for i'
      using that le [of i'] False by (cases "i' = i") auto
    then show ?thesis
      using False pr pv pos zero
      using sc by (simp add: pivot_step_def st es Let_def t' del: set_entry_apply) (use less_Suc_eq in blast)
  qed
qed

lemma pivot_column_mat:
  assumes "j \<le> n"
  shows "fst (pivot_column n j sc m) r c
           = (if c = j \<and> j \<le> r \<and> r < n then column_value m j r else m r c)"
  using pivot_column_invariant [OF assms, where sc = sc and m = m] by (auto split: prod.splits)

lemma pivot_column_row:
  assumes "j < n" and "p = snd (snd (pivot_column n j sc m))"
  shows "j \<le> p \<and> p < n
       \<and> (\<forall>i. j \<le> i \<and> i < n \<longrightarrow> pivot_score m sc j i \<le> pivot_score m sc j p)
       \<and> (\<forall>i. j \<le> i \<and> i < p \<longrightarrow> pivot_score m sc j i < pivot_score m sc j p)"
proof -
  obtain t pv where pc: "pivot_column n j sc m = (t, pv, p)"
    using assms(2) by (metis prod.collapse)
  from assms(1) have jn: "j \<le> n" by simp
  note inv = pivot_column_invariant [OF jn, where sc = sc and m = m, unfolded pc, simplified]
  show ?thesis
  proof (cases "0 < pv")
    case True
    with inv show ?thesis by auto
  next
    case False
    with inv have pv: "pv = 0" and p: "p = j" by auto
    have "pivot_score m sc j i = 0" if "j \<le> i" "i < n" for i
      using inv pv that pivot_score_nonneg [of m sc j i] by (simp add: antisym)
    with p assms(1) show ?thesis by auto
  qed
qed

lemma swap_rows_apply:
  assumes "p \<noteq> j"
  shows "swap_rows n p j m r c
           = (if c < n then (if r = p then m j c else if r = j then m p c else m r c) else m r c)"
proof -
  have "\<forall>r c. fold (\<lambda>k m. set_entry (set_entry m p k (m j k)) j k (m p k)) [0..<n] m r c
           = (if c < n then (if r = p then m j c else if r = j then m p c else m r c) else m r c)"
    by (rule fold_upt_invariant [where P = "\<lambda>b t. \<forall>r c. t r c
           = (if c < b then (if r = p then m j c else if r = j then m p c else m r c) else m r c)"])
       (use assms in \<open>auto simp: less_Suc_eq\<close>)
  then show ?thesis by (simp add: swap_rows_def)
qed

lemma divide_column_apply:
  "divide_column n j m r c = (if c = j \<and> j < r \<and> r < n then m r j * (1 / m j j) else m r c)"
proof (cases "j < n - 1")
  case True
  then have le: "j + 1 \<le> n" by simp
  have "\<forall>r c. fold (\<lambda>i t. set_entry t i j (t i j * (1 / m j j))) [j + 1..<n] m r c
          = (if c = j \<and> j < r \<and> r < n then m r j * (1 / m j j) else m r c)"
    by (rule fold_upt_invariant [where P = "\<lambda>b t. \<forall>r c. t r c
          = (if c = j \<and> j < r \<and> r < b then m r j * (1 / m j j) else m r c)", OF _ _ le])
       (auto simp: less_Suc_eq)
  with True show ?thesis by (simp add: divide_column_def Let_def)
next
  case False
  then show ?thesis by (auto simp: divide_column_def)
qed

subsection \<open>One column of the decomposition\<close>

lemma exchange_simps [simp]:
  "exchange p j j = p" "exchange p j p = j" "r \<noteq> j \<Longrightarrow> r \<noteq> p \<Longrightarrow> exchange p j r = r"
  "exchange j j r = r"
  by (simp_all add: exchange_def)

lemma exchange_below: "j \<le> p \<Longrightarrow> r < j \<Longrightarrow> exchange p j r = r"
  by (simp add: exchange_def)

lemma exchange_bounds:
  "j \<le> p \<Longrightarrow> j \<le> r \<Longrightarrow> j \<le> exchange p j r"
  "p < n \<Longrightarrow> j < n \<Longrightarrow> r < n \<Longrightarrow> exchange p j r < n"
  by (simp_all add: exchange_def)

lemma exchange_involution [simp]: "exchange p j (exchange p j r) = r"
  by (simp add: exchange_def)

lemma exchange_bij: "p < n \<Longrightarrow> j < n \<Longrightarrow> bij_betw (exchange p j) {..<n} {..<n}"
  by (rule bij_betw_byWitness [where f' = "exchange p j"]) (auto simp: exchange_bounds)

lemma permute_rows_fields:
  "perm (permute_rows n p j s) = perm s \<circ> exchange p j"
  "scaling (permute_rows n p j s) = scaling s \<circ> exchange p j"
  "parity (permute_rows n p j s) = (parity s = (p = j))"
  by (auto simp: permute_rows_def exchange_def fun_eq_iff)

lemma permute_rows_mat:
  "c < n \<Longrightarrow> mat (permute_rows n p j s) r c = mat s (exchange p j r) c"
  by (auto simp: permute_rows_def exchange_def swap_rows_apply)

lemma eliminated_apply:
  assumes "j \<le> n"
  shows "eliminated n j s r c
     = (if c = j \<and> j \<le> r \<and> r < n then column_value (upper_column j (mat s)) j r
        else upper_column j (mat s) r c)"
  by (simp add: eliminated_def pivot_column_mat [OF assms])

lemma crout_column_cases:
  "crout_column n j s =
     (if eliminated n j s (pivot_row_of n j s) j = 0 then Inl Singular
      else Inr ((permute_rows n (pivot_row_of n j s) j (s\<lparr>mat := eliminated n j s\<rparr>))
             \<lparr>mat := divide_column n j
                (mat (permute_rows n (pivot_row_of n j s) j (s\<lparr>mat := eliminated n j s\<rparr>)))\<rparr>))"
  by (simp add: crout_column_def eliminated_def pivot_row_of_def Let_def split: prod.splits)

lemma crout_column_InrD:
  assumes "crout_column n j s = Inr s'" and "j < n"
  defines "p \<equiv> pivot_row_of n j s"
  shows "eliminated n j s p j \<noteq> 0"
    and "perm s' = perm s \<circ> exchange p j"
    and "scaling s' = scaling s \<circ> exchange p j"
    and "parity s' = (parity s = (p = j))"
    and "\<And>r c. c < n \<Longrightarrow> mat s' r c =
          (if c = j \<and> j < r \<and> r < n
           then eliminated n j s (exchange p j r) j * (1 / eliminated n j s p j)
           else eliminated n j s (exchange p j r) c)"
proof -
  from assms(1) show nz: "eliminated n j s p j \<noteq> 0"
    by (auto simp: crout_column_cases p_def split: if_splits)
  with assms(1) have s': "s' = (permute_rows n p j (s\<lparr>mat := eliminated n j s\<rparr>))
             \<lparr>mat := divide_column n j (mat (permute_rows n p j (s\<lparr>mat := eliminated n j s\<rparr>)))\<rparr>"
    by (simp add: crout_column_cases p_def)
  show "perm s' = perm s \<circ> exchange p j" "scaling s' = scaling s \<circ> exchange p j"
    "parity s' = (parity s = (p = j))"
    by (simp_all add: s' permute_rows_fields)
  fix r c :: nat assume "c < n"
  with assms(2) show "mat s' r c =
          (if c = j \<and> j < r \<and> r < n
           then eliminated n j s (exchange p j r) j * (1 / eliminated n j s p j)
           else eliminated n j s (exchange p j r) c)"
    by (simp add: s' divide_column_apply permute_rows_mat)
qed

text \<open>
  The array \<open>perm\<close> is written and never read into the matrix, the scaling factors, the
  parity flag or the error: a column does the same to two states that differ in \<open>perm\<close>
  only.
\<close>

lemma eliminated_perm_update [simp]: "eliminated n j (s\<lparr>perm := q\<rparr>) = eliminated n j s"
  by (simp add: eliminated_def)

lemma pivot_row_of_perm_update [simp]: "pivot_row_of n j (s\<lparr>perm := q\<rparr>) = pivot_row_of n j s"
  by (simp add: pivot_row_of_def)

lemma permute_rows_perm_update:
  "permute_rows n p j (s\<lparr>perm := q, mat := E\<rparr>)
     = (permute_rows n p j (s\<lparr>mat := E\<rparr>))\<lparr>perm := q \<circ> exchange p j\<rparr>"
  by (auto simp: permute_rows_def exchange_def fun_eq_iff)

lemma crout_column_perm_update:
  "crout_column n j (s\<lparr>perm := q\<rparr>) =
     (case crout_column n j s of
        Inl e \<Rightarrow> Inl e
      | Inr s' \<Rightarrow> Inr (s'\<lparr>perm := q \<circ> exchange (pivot_row_of n j s) j\<rparr>))"
  by (simp add: crout_column_cases permute_rows_perm_update)

subsection \<open>The column preserves the invariant\<close>

lemma pivot_row_of_bounds:
  assumes "j < n"
  shows "j \<le> pivot_row_of n j s" "pivot_row_of n j s < n"
  using pivot_column_row [OF assms, of "pivot_row_of n j s" "scaling s" "upper_column j (mat s)"]
  by (simp_all add: pivot_row_of_def)

lemma eliminated_off: "j \<le> n \<Longrightarrow> c \<noteq> j \<Longrightarrow> eliminated n j s r c = mat s r c"
  by (simp add: eliminated_apply upper_column_frame)

lemma eliminated_up:
  assumes "j \<le> n" "r < j"
  shows "eliminated n j s r j = mat s r j - (\<Sum>k<r. mat s r k * eliminated n j s k j)"
proof -
  have "(\<Sum>k<r. mat s r k * upper_column j (mat s) k j) = (\<Sum>k<r. mat s r k * eliminated n j s k j)"
    using assms by (intro sum.cong) (simp_all add: eliminated_apply)
  then show ?thesis
    using assms upper_column_value [of r j "mat s"] by (simp add: eliminated_apply)
qed

lemma eliminated_low:
  assumes "j \<le> r" "r < n"
  shows "eliminated n j s r j = mat s r j - (\<Sum>k<j. mat s r k * eliminated n j s k j)"
proof -
  from assms have jn: "j \<le> n" by simp
  have "(\<Sum>k<j. upper_column j (mat s) r k * upper_column j (mat s) k j)
      = (\<Sum>k<j. mat s r k * eliminated n j s k j)"
    using jn by (intro sum.cong) (simp_all add: eliminated_apply upper_column_frame)
  then show ?thesis
    using assms jn by (simp add: eliminated_apply column_value_def upper_column_frame)
qed

lemma crout_column_inv:
  assumes inv: "lu_inv n A0 sc0 j s" and jn: "j < n" and step: "crout_column n j s = Inr s'"
  shows "lu_inv n A0 sc0 (Suc j) s'"
proof -
  define p where "p = pivot_row_of n j s"
  define E where "E = eliminated n j s"
  define \<sigma> where "\<sigma> = exchange p j"
  let ?M = "mat s" and ?M' = "mat s'"
  have jp: "j \<le> p" and pn: "p < n"
    using pivot_row_of_bounds [OF jn, of s] by (simp_all add: p_def)
  have jle: "j \<le> n" using jn by simp
  note D = crout_column_InrD [OF step jn, folded p_def E_def \<sigma>_def]
  have nz: "E p j \<noteq> 0" by (rule D(1))
  have perm': "perm s' r = perm s (\<sigma> r)" for r by (simp add: D(2))
  have \<sigma>_low: "\<sigma> r = r" if "r < j" for r
    using that jp by (simp add: \<sigma>_def exchange_below)
  have \<sigma>_ge: "j \<le> \<sigma> r" if "j \<le> r" for r
    using that jp by (simp add: \<sigma>_def exchange_bounds)
  have \<sigma>_n: "\<sigma> r < n" if "r < n" for r
    using that jn pn by (simp add: \<sigma>_def exchange_bounds)
  have \<sigma>_j: "\<sigma> j = p" by (simp add: \<sigma>_def)
  have E_off: "E r c = ?M r c" if "c \<noteq> j" for r c
    using that jle by (simp add: E_def eliminated_off)
  have E_up: "E r j = ?M r j - (\<Sum>k<r. ?M r k * E k j)" if "r < j" for r
    unfolding E_def by (rule eliminated_up [OF jle that])
  have E_low: "E r j = ?M r j - (\<Sum>k<j. ?M r k * E k j)" if "j \<le> r" "r < n" for r
    unfolding E_def by (rule eliminated_low [OF that])
  have M'_off: "?M' r c = ?M (\<sigma> r) c" if "c < n" "c \<noteq> j" for r c
    using that by (simp add: D(5) E_off)
  have M'_up: "?M' r j = E (\<sigma> r) j" if "r \<le> j" for r
    using that jn by (simp add: D(5))
  have M'_jj: "?M' j j = E p j" using M'_up [of j] by (simp add: \<sigma>_j)
  have M'_low: "?M' r j * ?M' j j = E (\<sigma> r) j" if "j < r" "r < n" for r
    using that jn nz by (simp add: D(5) \<sigma>_j)
  from inv have bij: "bij_betw (perm s) {..<n} {..<n}"
    and sc: "\<And>i. i < n \<Longrightarrow> scaling s i = sc0 (perm s i)"
    and I2: "\<And>i c. i < n \<Longrightarrow> c < n \<Longrightarrow> j \<le> c \<Longrightarrow> ?M i c = A0 (perm s i) c"
    and I3a: "\<And>c i. c < j \<Longrightarrow> i \<le> c \<Longrightarrow> A0 (perm s i) c = (\<Sum>k<i. ?M i k * ?M k c) + ?M i c"
    and I3b: "\<And>c i. c < j \<Longrightarrow> i < n \<Longrightarrow> c < i \<Longrightarrow>
                A0 (perm s i) c = (\<Sum>k<c. ?M i k * ?M k c) + ?M i c * ?M c c"
    and I4: "\<And>c. c < j \<Longrightarrow> ?M c c \<noteq> 0"
    by (simp_all add: lu_inv_def)
  have G1: "bij_betw (perm s') {..<n} {..<n}"
    unfolding D(2) \<sigma>_def [symmetric]
    using bij_betw_trans [OF exchange_bij [OF pn jn] bij] by (simp add: \<sigma>_def)
  have G5: "scaling s' i = sc0 (perm s' i)" if "i < n" for i
    using sc [OF \<sigma>_n [OF that]] by (simp add: D(2,3))
  have G2: "?M' i c = A0 (perm s' i) c" if "i < n" "c < n" "Suc j \<le> c" for i c
    using that I2 [OF \<sigma>_n [OF that(1)] that(2)] by (simp add: M'_off perm')
  have G3a: "A0 (perm s' i) c = (\<Sum>k<i. ?M' i k * ?M' k c) + ?M' i c" if "c < Suc j" "i \<le> c" for c i
  proof (cases "c = j")
    case False
    with that have cj: "c < j" by simp
    with that jn have ij: "i < j" and cn: "c < n" by simp_all
    have "(\<Sum>k<i. ?M' i k * ?M' k c) = (\<Sum>k<i. ?M i k * ?M k c)"
      using ij jn cn False by (intro sum.cong) (simp_all add: M'_off \<sigma>_low)
    then show ?thesis
      using I3a [OF cj that(2)] ij cn False by (simp add: perm' \<sigma>_low M'_off)
  next
    case True
    have in': "\<sigma> i < n" using that True jn by (intro \<sigma>_n) simp
    have Bij: "A0 (perm s' i) j = ?M (\<sigma> i) j"
      using I2 [OF in' jn] by (simp add: perm')
    have sums: "(\<Sum>k<i. ?M' i k * ?M' k j) = (\<Sum>k<i. ?M (\<sigma> i) k * E k j)"
      using that True jn by (intro sum.cong) (simp_all add: M'_off M'_up \<sigma>_low)
    show ?thesis
    proof (cases "i = j")
      case False
      with that True have ij: "i < j" by simp
      show ?thesis
        using E_up [OF ij] ij sums Bij by (simp add: True M'_up \<sigma>_low)
    next
      case ieq: True
      show ?thesis
        using E_low [OF jp pn] sums Bij by (simp add: True ieq M'_up \<sigma>_j)
    qed
  qed
  have G3b: "A0 (perm s' i) c = (\<Sum>k<c. ?M' i k * ?M' k c) + ?M' i c * ?M' c c"
    if "c < Suc j" "i < n" "c < i" for c i
  proof (cases "c = j")
    case False
    with that have cj: "c < j" by simp
    with jn have cn: "c < n" by simp
    have ci: "c < \<sigma> i"
    proof (cases "i < j")
      case True then show ?thesis using that by (simp add: \<sigma>_low)
    next
      case False then show ?thesis using \<sigma>_ge [of i] cj by simp
    qed
    have "(\<Sum>k<c. ?M' i k * ?M' k c) = (\<Sum>k<c. ?M (\<sigma> i) k * ?M k c)"
      using cj jn cn by (intro sum.cong) (simp_all add: M'_off \<sigma>_low)
    then show ?thesis
      using I3b [OF cj \<sigma>_n [OF that(2)] ci] cj cn by (simp add: perm' M'_off \<sigma>_low)
  next
    case True
    with that have ji: "j < i" by simp
    have Bij: "A0 (perm s' i) j = ?M (\<sigma> i) j"
      using I2 [OF \<sigma>_n [OF that(2)] jn] by (simp add: perm')
    have "(\<Sum>k<j. ?M' i k * ?M' k j) = (\<Sum>k<j. ?M (\<sigma> i) k * E k j)"
      using jn by (intro sum.cong) (simp_all add: M'_off M'_up \<sigma>_low)
    moreover have "j \<le> \<sigma> i" using \<sigma>_ge [of i] ji by simp
    ultimately show ?thesis
      using E_low [OF _ \<sigma>_n [OF that(2)]] ji Bij M'_low [OF ji that(2)]
      by (simp add: True)
  qed
  have G4: "?M' c c \<noteq> 0" if "c < Suc j" for c
  proof (cases "c = j")
    case True then show ?thesis using nz by (simp add: M'_jj)
  next
    case False
    with that have "c < j" by simp
    then show ?thesis using I4 [of c] jn by (simp add: M'_off \<sigma>_low)
  qed
  show ?thesis
    unfolding lu_inv_def using G1 G2 G3a G3b G4 G5 by blast
qed

subsection \<open>The loop over the columns and the scaling pass\<close>

lemma crout_loop_append:
  "crout_loop n (xs @ ys) s =
     (case crout_loop n xs s of Inl e \<Rightarrow> Inl e | Inr s' \<Rightarrow> crout_loop n ys s')"
  by (induction xs arbitrary: s) (simp_all split: sum.splits)

lemma crout_loop_Suc:
  "crout_loop n [0..<Suc j] s =
     (case crout_loop n [0..<j] s of Inl e \<Rightarrow> Inl e | Inr s' \<Rightarrow> crout_column n j s')"
  by (simp add: crout_loop_append split: sum.splits)

lemma crout_loop_error: "crout_loop n xs s = Inl e \<Longrightarrow> e = Singular"
  by (induction xs arbitrary: s) (auto simp: crout_column_cases split: sum.splits if_splits)

lemma crout_loop_inv:
  assumes "lu_inv n A0 sc0 0 s0" and "j \<le> n" and "crout_loop n [0..<j] s0 = Inr s"
  shows "lu_inv n A0 sc0 j s"
  using assms(2,3)
proof (induction j arbitrary: s)
  case 0
  with assms(1) show ?case by simp
next
  case (Suc j)
  from Suc.prems(2) [unfolded crout_loop_Suc]
  obtain t where t: "crout_loop n [0..<j] s0 = Inr t"
    and step: "crout_column n j t = Inr s"
    by (auto split: sum.splits)
  from Suc.prems(1) have "j \<le> n" "j < n" by simp_all
  from crout_column_inv [OF Suc.IH [OF \<open>j \<le> n\<close> t] \<open>j < n\<close> step] show ?case .
qed

lemma crout_loop_perm_update:
  "\<exists>q'. crout_loop n js (s\<lparr>perm := q\<rparr>) =
     (case crout_loop n js s of Inl e \<Rightarrow> Inl e | Inr s' \<Rightarrow> Inr (s'\<lparr>perm := q'\<rparr>))"
proof (induction js arbitrary: s q)
  case Nil
  show ?case by (rule exI [of _ q]) simp
next
  case (Cons j js)
  show ?case
  proof (cases "crout_column n j s")
    case (Inl e)
    then show ?thesis by (simp add: crout_column_perm_update)
  next
    case (Inr t)
    from Cons.IH [where s = t and q = "q \<circ> exchange (pivot_row_of n j s) j"]
    show ?thesis by (simp add: crout_column_perm_update Inr o_def)
  qed
qed

text \<open>
  The invariant holds of the state the loop starts in once its field \<open>perm\<close> holds the
  sequence 0, 1, ..., and so it holds at every column of the state the loop has reached,
  with some sequence \<open>\<sigma>\<close> in the field \<open>perm\<close>: the origin of the rows.
\<close>

lemma initial_state_inv:
  "lu_inv n A0 sc 0 ((initial_state A0 n perm0 sc)\<lparr>perm := \<lambda>k. k\<rparr>)"
proof -
  have "bij_betw (\<lambda>k::nat. k) {..<n} {..<n}"
    by (rule bij_betw_byWitness [where f' = id]) auto
  then show ?thesis
    by (simp add: lu_inv_def initial_state_def)
qed

lemma crout_loop_tracked:
  assumes "crout_loop n [0..<j] (initial_state A0 n perm0 sc) = Inr s" and "j \<le> n"
  shows "\<exists>\<sigma>. lu_inv n A0 sc j (s\<lparr>perm := \<sigma>\<rparr>)"
proof -
  let ?g = "(initial_state A0 n perm0 sc)\<lparr>perm := \<lambda>k. k\<rparr>"
  have real: "initial_state A0 n perm0 sc = ?g\<lparr>perm := init_perm n perm0\<rparr>"
    by (simp add: initial_state_def)
  from crout_loop_perm_update [where n = n and js = "[0..<j]" and s = ?g and q = "init_perm n perm0"]
  obtain q' where "crout_loop n [0..<j] (initial_state A0 n perm0 sc) =
     (case crout_loop n [0..<j] ?g of Inl e \<Rightarrow> Inl e | Inr s' \<Rightarrow> Inr (s'\<lparr>perm := q'\<rparr>))"
    unfolding real [symmetric] by blast
  with assms(1) obtain g where g: "crout_loop n [0..<j] ?g = Inr g" and s: "s = g\<lparr>perm := q'\<rparr>"
    by (auto split: sum.splits)
  from crout_loop_inv [OF initial_state_inv assms(2) g] have "lu_inv n A0 sc j g" .
  moreover have "g = s\<lparr>perm := perm g\<rparr>" by (simp add: s)
  ultimately have "lu_inv n A0 sc j (s\<lparr>perm := perm g\<rparr>)" by simp
  then show ?thesis by blast
qed

text \<open>The scaling pass\<close>

lemma scaling_pass_append:
  "scaling_pass m n (xs @ ys) sc =
     (case scaling_pass m n xs sc of Inl e \<Rightarrow> Inl e | Inr sc' \<Rightarrow> scaling_pass m n ys sc')"
  by (induction xs arbitrary: sc) (simp_all add: Let_def split: sum.splits)

lemma row_scan_apply:
  "row_scan m n i sc k = (if k = i then Max (insert (sc i) ((\<lambda>j. \<bar>m i j\<bar>) ` {..<n})) else sc k)"
  unfolding row_scan_def
proof (induction n)
  case 0
  show ?case by simp
next
  case (Suc n)
  have "Max (insert (sc i) ((\<lambda>j. \<bar>m i j\<bar>) ` {..<Suc n}))
      = max \<bar>m i n\<bar> (Max (insert (sc i) ((\<lambda>j. \<bar>m i j\<bar>) ` {..<n})))"
  proof -
    have "insert (sc i) ((\<lambda>j. \<bar>m i j\<bar>) ` {..<Suc n})
        = insert \<bar>m i n\<bar> (insert (sc i) ((\<lambda>j. \<bar>m i j\<bar>) ` {..<n}))"
      by (auto simp: lessThan_Suc)
    then show ?thesis by (simp del: Max_insert add: Max_insert [of "insert _ _"])
  qed
  with Suc show ?case by (auto simp: Let_def max_def)
qed

lemma row_max_insert_zero:
  assumes "0 < n"
  shows "Max (insert 0 ((\<lambda>j. \<bar>A i j\<bar>) ` {..<n})) = row_max n A i"
proof -
  have ne: "(\<lambda>j. \<bar>A i j\<bar>) ` {..<n} \<noteq> {}" using assms by auto
  have "0 \<le> row_max n A i"
    unfolding row_max_def using assms by (subst Max_ge_iff) (auto simp: ne)
  then show ?thesis using ne by (simp add: row_max_def max_def)
qed

lemma row_max_zero_iff:
  assumes "0 < n"
  shows "row_max n A i = 0 \<longleftrightarrow> (\<forall>j<n. A i j = 0)"
proof
  assume z: "row_max n A i = 0"
  show "\<forall>j<n. A i j = 0"
  proof (intro allI impI)
    fix j assume "j < n"
    then have "\<bar>A i j\<bar> \<le> row_max n A i"
      unfolding row_max_def by (intro Max_ge) auto
    with z show "A i j = 0" by simp
  qed
next
  assume "\<forall>j<n. A i j = 0"
  then have "(\<lambda>j. \<bar>A i j\<bar>) ` {..<n} = {0}" using assms by auto
  then show "row_max n A i = 0" by (simp add: row_max_def)
qed

lemma scaling_pass_upto:
  assumes "0 < n"
  shows "scaling_pass A n [0..<b] (\<lambda>_. 0) =
           (if \<exists>i<b. \<forall>j<n. A i j = 0 then Inl NullRow
            else Inr (\<lambda>i. if i < b then 1 / row_max n A i else 0))"
proof (induction b)
  case 0
  show ?case by simp
next
  case (Suc b)
  show ?case
  proof (cases "\<exists>i<b. \<forall>j<n. A i j = 0")
    case True
    then have "\<exists>i<Suc b. \<forall>j<n. A i j = 0" using less_Suc_eq by blast
    with True Suc show ?thesis by (simp add: scaling_pass_append)
  next
    case False
    let ?sc = "\<lambda>i. if i < b then 1 / row_max n A i else 0"
    have scan: "row_scan A n b ?sc b = row_max n A b"
      by (simp add: row_scan_apply row_max_insert_zero [OF assms])
    have ex: "(\<exists>i<Suc b. \<forall>j<n. A i j = 0) \<longleftrightarrow> row_max n A b = 0"
      using False by (auto simp: less_Suc_eq row_max_zero_iff [OF assms])
    have upd: "(row_scan A n b ?sc)(b := 1 / row_max n A b)
        = (\<lambda>i. if i < Suc b then 1 / row_max n A i else 0)"
      by (auto simp: fun_eq_iff row_scan_apply)
    from False Suc have "scaling_pass A n [0..<b] (\<lambda>_. 0) = Inr ?sc" by simp
    then show ?thesis
      by (simp only: upt_Suc_append [OF le0] scaling_pass_append sum.case scaling_pass.simps
            Let_def scan ex upd)
  qed
qed

subsection \<open>The permutation and the diagonal\<close>

lemma LUDecomp_Inr_iff:
  "LUDecomp A n perm0 = Inr (M, p, par) \<longleftrightarrow>
     (\<exists>sc s. scaling_pass A n [0..<n] (\<lambda>_. 0) = Inr sc
          \<and> crout_loop n [0..<n] (initial_state A n perm0 sc) = Inr s
          \<and> M = mat s \<and> p = perm s \<and> par = parity s)"
  by (auto simp: LUDecomp_def initial_state_def split: sum.splits)

lemma LUDecomp_inv:
  assumes "LUDecomp A n perm0 = Inr (M, p, par)"
  obtains sc s \<sigma> where "scaling_pass A n [0..<n] (\<lambda>_. 0) = Inr sc"
    and "crout_loop n [0..<n] (initial_state A n perm0 sc) = Inr s"
    and "lu_inv n A sc n (s\<lparr>perm := \<sigma>\<rparr>)" and "M = mat s" and "p = perm s" and "par = parity s"
proof -
  from assms obtain sc s where sc: "scaling_pass A n [0..<n] (\<lambda>_. 0) = Inr sc"
    and loop: "crout_loop n [0..<n] (initial_state A n perm0 sc) = Inr s"
    and eqs: "M = mat s" "p = perm s" "par = parity s"
    unfolding LUDecomp_Inr_iff by blast
  from crout_loop_tracked [OF loop le_refl]
  obtain \<sigma> where "lu_inv n A sc n (s\<lparr>perm := \<sigma>\<rparr>)" by blast
  with sc loop eqs show ?thesis using that by blast
qed

lemma ex_A_decomposition:
  "case LUDecomp ex_A 2 (\<lambda>_. 0) of
     Inl e \<Rightarrow> False
   | Inr (M, p, par) \<Rightarrow>
       [[M 0 0, M 0 1], [M 1 0, M 1 1]] = [[3, 4], [1 / 3, 2 / 3]] \<and> [p 0, p 1] = [0, 0] \<and> \<not> par"
  by code_simp

lemma ex_A_first_column:
  "case crout_column 2 0 (initial_state ex_A 2 (\<lambda>_. 0) (row_scaling 2 ex_A)) of
     Inl e \<Rightarrow> False
   | Inr s' \<Rightarrow>
       pivot_row_of 2 0 (initial_state ex_A 2 (\<lambda>_. 0) (row_scaling 2 ex_A)) = 1
     \<and> [[mat s' 0 0, mat s' 0 1], [mat s' 1 0, mat s' 1 1]] = [[3, 4], [1 / 3, 2]]
     \<and> [perm s' 0, perm s' 1] = [0, 0] \<and> \<not> parity s'"
  by code_simp

text \<open>
  C9: the array \<open>perm\<close> is not initialised to the sequence 0, 1, ...: line 54 stores \<open>k\<close>
  in \<open>perm[k + 1]\<close>, so that an array of three entries that held 99 everywhere holds
  99, 0, 1 afterwards, with 2 written behind its end. After the successful decomposition of
  the matrix with the rows \<open>(1, 2)\<close> and \<open>(3, 4)\<close>, called with the zero-filled array
  \<open>LUsolveSystem\<close> passes, both entries of \<open>perm\<close> are 0: the array does not hold a
  permutation of \<open>{0, 1}\<close>, although the two rows have been exchanged.
\<close>

theorem LUDecomp_perm_not_permutation:
  "map (init_perm 3 (\<lambda>_. 99)) [0..<5] = [99, 0, 1, 2, 99]
 \<and> (case LUDecomp ex_A 2 (\<lambda>_. 0) of
      Inl e \<Rightarrow> False
    | Inr (M, p, par) \<Rightarrow> [p 0, p 1] = [0, 0] \<and> \<not> par \<and> \<not> bij_betw p {..<2} {..<2})"
proof -
  have i: "map (init_perm 3 (\<lambda>_. 99)) [0..<5] = [99, 0, 1, 2, 99]"
    by code_simp
  obtain M p par where r: "LUDecomp ex_A 2 (\<lambda>_. 0) = Inr (M, p, par)"
    and v: "[p 0, p 1] = [0, 0]" and par: "\<not> par"
    using ex_A_decomposition by (auto split: sum.splits)
  have "\<not> bij_betw p {..<2} {..<2}"
  proof
    assume "bij_betw p {..<2} {..<2}"
    then have "inj_on p {..<2}" by (simp add: bij_betw_def)
    moreover have "p 0 = p 1" using v by simp
    ultimately have "(0::nat) = 1" by (auto dest: inj_onD)
    then show False by simp
  qed
  with i r v par show ?thesis by simp
qed

text \<open>
  C10: after a successful \<open>LUDecomp\<close> every diagonal entry of the matrix is nonzero, so no
  division of \<open>backwardSubstitution\<close> is by zero: the column \<open>j\<close> leaves a nonzero pivot in
  \<open>mat[j][j]\<close>, and leaves the diagonal entries of the columns before it as they are.
\<close>

theorem LUDecomp_diagonal_nonzero:
  assumes "LUDecomp A n perm0 = Inr (M, p, par)" and "1 \<le> n"
  shows "(\<forall>i<n. M i i \<noteq> 0)
       \<and> 0 \<notin> set (backwardSubstitution_divisors M n)
       \<and> (\<forall>j s s'. j < n \<and> crout_column n j s = Inr s' \<longrightarrow>
             mat s' j j \<noteq> 0 \<and> (\<forall>c<j. mat s' c c = mat s c c))"
proof (intro conjI allI impI)
  from assms(1) obtain sc s \<sigma> where inv: "lu_inv n A sc n (s\<lparr>perm := \<sigma>\<rparr>)" and M: "M = mat s"
    by (rule LUDecomp_inv)
  then show diag: "M i i \<noteq> 0" if "i < n" for i using that by (simp add: lu_inv_def)
  have "x \<noteq> 0" if "x \<in> set (backwardSubstitution_divisors M n)" for x
  proof -
    from that have "x = M (n - 1) (n - 1) \<or> (\<exists>i<n - 1. x = M i i)"
      by (auto simp: backwardSubstitution_divisors_def)
    moreover have "n - 1 < n" using assms(2) by simp
    moreover have "i < n" if "i < n - 1" for i using that by simp
    ultimately obtain i where "i < n" "x = M i i" by blast
    with diag show ?thesis by simp
  qed
  then show "0 \<notin> set (backwardSubstitution_divisors M n)" by blast
next
  fix j s s' assume h: "j < n \<and> crout_column n j s = Inr s'"
  then have jn: "j < n" and step: "crout_column n j s = Inr s'" by simp_all
  note D = crout_column_InrD [OF step jn]
  have jp: "j \<le> pivot_row_of n j s" by (rule pivot_row_of_bounds [OF jn])
  show "mat s' j j \<noteq> 0" using D(1) jn by (simp add: D(5))
  fix c assume "c < j"
  then show "mat s' c c = mat s c c"
    using jn jp by (simp add: D(5) exchange_below eliminated_off)
qed

theorem LUDecomp_diagonal_nonzero_witness:
  "(case LUDecomp ex_A 2 (\<lambda>_. 0) of
      Inl e \<Rightarrow> False
    | Inr (M, p, par) \<Rightarrow>
        [M 0 0, M 1 1] = [3, 2 / 3] \<and> (1::nat) \<le> 2
      \<and> 0 \<notin> set (backwardSubstitution_divisors M 2))
 \<and> (case crout_column 2 0 (initial_state ex_A 2 (\<lambda>_. 0) (row_scaling 2 ex_A)) of
      Inl e \<Rightarrow> False
    | Inr s' \<Rightarrow> mat s' 0 0 = 3 \<and> mat s' 0 0 \<noteq> 0)"
proof -
  let ?s = "initial_state ex_A 2 (\<lambda>_. 0) (row_scaling 2 ex_A)"
  obtain M p par where r: "LUDecomp ex_A 2 (\<lambda>_. 0) = Inr (M, p, par)"
    and v: "[M 0 0, M 1 1] = [3, 2 / 3]"
    using ex_A_decomposition by (auto split: sum.splits)
  have n: "(1::nat) \<le> 2" by simp
  note t = LUDecomp_diagonal_nonzero [OF r n]
  from t have d: "0 \<notin> set (backwardSubstitution_divisors M 2)" by blast
  obtain s' where c: "crout_column 2 0 ?s = Inr s'" and m: "mat s' 0 0 = 3"
    using ex_A_first_column by (auto split: sum.splits)
  have "(0::nat) < 2" by simp
  with t c have "mat s' 0 0 \<noteq> 0" by blast
  with r v n d c m show ?thesis by simp
qed

subsection \<open>The pivot that is selected\<close>

lemma scaling_pass_result:
  assumes "scaling_pass A n [0..<n] (\<lambda>_. 0) = Inr sc"
  shows "sc = row_scaling n A" and "\<not> (\<exists>i<n. \<forall>j<n. A i j = 0)"
proof -
  have "sc = row_scaling n A \<and> \<not> (\<exists>i<n. \<forall>j<n. A i j = 0)"
  proof (cases "0 < n")
    case True
    from assms show ?thesis
      unfolding scaling_pass_upto [OF True] row_scaling_def by (auto split: if_splits)
  next
    case False
    with assms show ?thesis by (auto simp: row_scaling_def)
  qed
  then show "sc = row_scaling n A" and "\<not> (\<exists>i<n. \<forall>j<n. A i j = 0)" by simp_all
qed

lemma scaling_pass_cases:
  "scaling_pass A n [0..<n] (\<lambda>_. 0) =
     (if \<exists>i<n. \<forall>j<n. A i j = 0 then Inl NullRow else Inr (row_scaling n A))"
proof (cases "0 < n")
  case True
  then show ?thesis by (simp add: scaling_pass_upto row_scaling_def)
next
  case False
  then show ?thesis by (simp add: row_scaling_def)
qed

text \<open>
  C4: when the loop reaches column \<open>j\<close>, the pivot row is a row \<open>p\<close> from \<open>j\<close> on whose score
  \<open>|entry(p,j) * scaling(p)|\<close> is the largest, and the first such row. The rows stored at the
  positions below \<open>n\<close> are the rows of the input in some order \<open>\<sigma>\<close> (the entries of
  position \<open>i\<close> from column \<open>j\<close> on are still those of the input row \<open>\<sigma> i\<close>), and \<open>scaling(i)\<close>
  is the reciprocal of the largest absolute entry of that input row. The column exchanges
  the rows \<open>p\<close> and \<open>j\<close> in full, their scaling factors with them, and toggles the parity
  flag exactly when \<open>p\<close> differs from \<open>j\<close>.
\<close>

theorem pivot_selection:
  assumes "scaling_pass A n [0..<n] (\<lambda>_. 0) = Inr sc"
    and "crout_loop n [0..<j] (initial_state A n perm0 sc) = Inr s"
    and "j < n"
  defines "p \<equiv> pivot_row_of n j s" and "E \<equiv> eliminated n j s"
  shows "j \<le> p \<and> p < n
       \<and> (\<forall>i. j \<le> i \<and> i < n \<longrightarrow> \<bar>E i j * scaling s i\<bar> \<le> \<bar>E p j * scaling s p\<bar>)
       \<and> (\<forall>i. j \<le> i \<and> i < p \<longrightarrow> \<bar>E i j * scaling s i\<bar> < \<bar>E p j * scaling s p\<bar>)
       \<and> (\<exists>\<sigma>. bij_betw \<sigma> {..<n} {..<n}
              \<and> (\<forall>i<n. scaling s i = 1 / row_max n A (\<sigma> i)
                        \<and> (\<forall>c<n. j \<le> c \<longrightarrow> mat s i c = A (\<sigma> i) c)))
       \<and> (\<forall>s'. crout_column n j s = Inr s' \<longrightarrow>
             parity s' = (if p \<noteq> j then \<not> parity s else parity s)
           \<and> (\<forall>r. scaling s' r = scaling s (exchange p j r))
           \<and> (\<forall>r c. c < n \<and> c \<noteq> j \<longrightarrow> mat s' r c = E (exchange p j r) c)
           \<and> mat s' j j = E p j
           \<and> (\<forall>r. j < r \<and> r < n \<longrightarrow> mat s' r j = E (exchange p j r) j * (1 / E p j)))"
proof -
  from assms(3) have jn: "j \<le> n" by simp
  have row: "j \<le> p \<and> p < n
       \<and> (\<forall>i. j \<le> i \<and> i < n \<longrightarrow>
             pivot_score (upper_column j (mat s)) (scaling s) j i
               \<le> pivot_score (upper_column j (mat s)) (scaling s) j p)
       \<and> (\<forall>i. j \<le> i \<and> i < p \<longrightarrow>
             pivot_score (upper_column j (mat s)) (scaling s) j i
               < pivot_score (upper_column j (mat s)) (scaling s) j p)"
    by (rule pivot_column_row [OF assms(3)]) (simp add: p_def pivot_row_of_def)
  have score: "pivot_score (upper_column j (mat s)) (scaling s) j i = \<bar>E i j * scaling s i\<bar>"
    if "j \<le> i" "i < n" for i
    using that jn by (simp add: pivot_score_def E_def eliminated_apply)
  from row have pb: "j \<le> p" "p < n" by simp_all
  from row have le: "\<And>i. j \<le> i \<Longrightarrow> i < n \<Longrightarrow>
             pivot_score (upper_column j (mat s)) (scaling s) j i
               \<le> pivot_score (upper_column j (mat s)) (scaling s) j p"
    and lt: "\<And>i. j \<le> i \<Longrightarrow> i < p \<Longrightarrow>
             pivot_score (upper_column j (mat s)) (scaling s) j i
               < pivot_score (upper_column j (mat s)) (scaling s) j p"
    by blast+
  have G1: "\<bar>E i j * scaling s i\<bar> \<le> \<bar>E p j * scaling s p\<bar>" if "j \<le> i \<and> i < n" for i
  proof -
    from that have i: "j \<le> i" "i < n" by simp_all
    from le [OF i] show ?thesis unfolding score [OF i] score [OF pb] .
  qed
  have G2: "\<bar>E i j * scaling s i\<bar> < \<bar>E p j * scaling s p\<bar>" if "j \<le> i \<and> i < p" for i
  proof -
    from that pb have i: "j \<le> i" "i < n" and ip: "i < p" by simp_all
    from lt [OF i(1) ip] show ?thesis unfolding score [OF i] score [OF pb] .
  qed
  from crout_loop_tracked [OF assms(2) jn]
  obtain \<sigma> where inv: "lu_inv n A sc j (s\<lparr>perm := \<sigma>\<rparr>)" by blast
  then have bij: "bij_betw \<sigma> {..<n} {..<n}" by (simp add: lu_inv_def)
  have G3: "scaling s i = 1 / row_max n A (\<sigma> i)" if "i < n" for i
  proof -
    from inv have "scaling s i = sc (\<sigma> i)"
      using that by (simp add: lu_inv_def)
    moreover from bij that have "\<sigma> i < n"
      by (auto simp: bij_betw_def)
    ultimately show ?thesis
      by (simp add: scaling_pass_result(1) [OF assms(1)] row_scaling_def)
  qed
  have G3': "mat s i c = A (\<sigma> i) c" if "i < n" "c < n" "j \<le> c" for i c
    using inv that by (simp add: lu_inv_def)
  from bij G3 G3' have G3'': "\<exists>\<sigma>. bij_betw \<sigma> {..<n} {..<n}
              \<and> (\<forall>i<n. scaling s i = 1 / row_max n A (\<sigma> i)
                        \<and> (\<forall>c<n. j \<le> c \<longrightarrow> mat s i c = A (\<sigma> i) c))"
    by blast
  have G4: "parity s' = (if p \<noteq> j then \<not> parity s else parity s)
           \<and> (\<forall>r. scaling s' r = scaling s (exchange p j r))
           \<and> (\<forall>r c. c < n \<and> c \<noteq> j \<longrightarrow> mat s' r c = E (exchange p j r) c)
           \<and> mat s' j j = E p j
           \<and> (\<forall>r. j < r \<and> r < n \<longrightarrow> mat s' r j = E (exchange p j r) j * (1 / E p j))"
    if "crout_column n j s = Inr s'" for s'
    using crout_column_InrD(3,4,5) [OF that assms(3), folded p_def E_def] assms(3)
    by auto
  from pb G1 G2 G3'' G4 show ?thesis by blast
qed

lemma ex_A_scaling:
  "scaling_pass ex_A 2 [0..<2] (\<lambda>_. 0) = Inr (row_scaling 2 ex_A)"
  by (subst scaling_pass_cases) (auto simp: ex_A_def less_Suc_eq numeral_2_eq_2)

theorem pivot_selection_witness:
  "scaling_pass ex_A 2 [0..<2] (\<lambda>_. 0) = Inr (row_scaling 2 ex_A)
 \<and> crout_loop 2 [0..<0] (initial_state ex_A 2 (\<lambda>_. 0) (row_scaling 2 ex_A))
      = Inr (initial_state ex_A 2 (\<lambda>_. 0) (row_scaling 2 ex_A))
 \<and> (0::nat) < 2
 \<and> pivot_row_of 2 0 (initial_state ex_A 2 (\<lambda>_. 0) (row_scaling 2 ex_A)) = 1
 \<and> \<bar>eliminated 2 0 (initial_state ex_A 2 (\<lambda>_. 0) (row_scaling 2 ex_A)) 0 0
      * scaling (initial_state ex_A 2 (\<lambda>_. 0) (row_scaling 2 ex_A)) 0\<bar>
   < \<bar>eliminated 2 0 (initial_state ex_A 2 (\<lambda>_. 0) (row_scaling 2 ex_A)) 1 0
      * scaling (initial_state ex_A 2 (\<lambda>_. 0) (row_scaling 2 ex_A)) 1\<bar>
 \<and> (\<exists>\<sigma>::nat \<Rightarrow> nat. bij_betw \<sigma> {..<2} {..<2}
        \<and> scaling (initial_state ex_A 2 (\<lambda>_. 0) (row_scaling 2 ex_A)) 1 = 1 / row_max 2 ex_A (\<sigma> 1)
        \<and> mat (initial_state ex_A 2 (\<lambda>_. 0) (row_scaling 2 ex_A)) 1 0 = ex_A (\<sigma> 1) 0)
 \<and> (case crout_column 2 0 (initial_state ex_A 2 (\<lambda>_. 0) (row_scaling 2 ex_A)) of
      Inl e \<Rightarrow> False
    | Inr s' \<Rightarrow>
        [[mat s' 0 0, mat s' 0 1], [mat s' 1 0, mat s' 1 1]] = [[3, 4], [1 / 3, 2]]
      \<and> parity s' = (\<not> parity (initial_state ex_A 2 (\<lambda>_. 0) (row_scaling 2 ex_A)))
      \<and> scaling s' 0 = scaling (initial_state ex_A 2 (\<lambda>_. 0) (row_scaling 2 ex_A)) 1
      \<and> mat s' 0 1 = eliminated 2 0 (initial_state ex_A 2 (\<lambda>_. 0) (row_scaling 2 ex_A)) 1 1
      \<and> mat s' 1 1 = eliminated 2 0 (initial_state ex_A 2 (\<lambda>_. 0) (row_scaling 2 ex_A)) 0 1)"
proof -
  let ?s = "initial_state ex_A 2 (\<lambda>_. 0) (row_scaling 2 ex_A)"
  have l: "crout_loop 2 [0..<0] ?s = Inr ?s" by simp
  have n: "(0::nat) < 2" by simp
  obtain s' where c: "crout_column 2 0 ?s = Inr s'" and p: "pivot_row_of 2 0 ?s = 1"
    and m: "[[mat s' 0 0, mat s' 0 1], [mat s' 1 0, mat s' 1 1]] = [[3, 4], [1 / 3, 2]]"
    using ex_A_first_column by (auto split: sum.splits)
  note t = pivot_selection [OF ex_A_scaling l n]
  from t have "\<forall>i. 0 \<le> i \<and> i < pivot_row_of 2 0 ?s \<longrightarrow>
          \<bar>eliminated 2 0 ?s i 0 * scaling ?s i\<bar>
            < \<bar>eliminated 2 0 ?s (pivot_row_of 2 0 ?s) 0 * scaling ?s (pivot_row_of 2 0 ?s)\<bar>"
    by blast
  then have lt: "\<bar>eliminated 2 0 ?s 0 0 * scaling ?s 0\<bar> < \<bar>eliminated 2 0 ?s 1 0 * scaling ?s 1\<bar>"
    unfolding p by simp
  from t obtain \<sigma> where "bij_betw \<sigma> {..<2} {..<2}"
    and "\<forall>i<2. scaling ?s i = 1 / row_max 2 ex_A (\<sigma> i)
                \<and> (\<forall>c<2. 0 \<le> c \<longrightarrow> mat ?s i c = ex_A (\<sigma> i) c)"
    by blast
  then have org: "\<exists>\<sigma>::nat \<Rightarrow> nat. bij_betw \<sigma> {..<2} {..<2}
        \<and> scaling ?s 1 = 1 / row_max 2 ex_A (\<sigma> 1) \<and> mat ?s 1 0 = ex_A (\<sigma> 1) 0"
    by auto
  from t c have par: "parity s' = (if pivot_row_of 2 0 ?s \<noteq> 0 then \<not> parity ?s else parity ?s)"
    and sw: "\<forall>r c. c < 2 \<and> c \<noteq> 0 \<longrightarrow>
               mat s' r c = eliminated 2 0 ?s (exchange (pivot_row_of 2 0 ?s) 0 r) c"
    by blast+
  from par have par': "parity s' = (\<not> parity ?s)" unfolding p by simp
  from t c have "\<forall>r. scaling s' r = scaling ?s (exchange (pivot_row_of 2 0 ?s) 0 r)"
    by blast
  then have sc: "scaling s' 0 = scaling ?s 1" unfolding p by simp
  have "(1::nat) < 2 \<and> (1::nat) \<noteq> 0" by simp
  with sw have "mat s' 0 1 = eliminated 2 0 ?s (exchange (pivot_row_of 2 0 ?s) 0 0) 1"
    and "mat s' 1 1 = eliminated 2 0 ?s (exchange (pivot_row_of 2 0 ?s) 0 1) 1"
    by blast+
  then have rows: "mat s' 0 1 = eliminated 2 0 ?s 1 1" "mat s' 1 1 = eliminated 2 0 ?s 0 1"
    unfolding p by (simp_all add: exchange_def)
  from ex_A_scaling l n p lt org c m par' sc rows show ?thesis by simp
qed

subsection \<open>The errors\<close>

lemma crout_loop_snoc:
  "crout_loop n (xs @ [j]) s =
     (case crout_loop n xs s of Inl e \<Rightarrow> Inl e | Inr s' \<Rightarrow> crout_column n j s')"
  by (simp add: crout_loop_append split: sum.splits)

lemma crout_loop_first_failure:
  assumes "crout_loop n [0..<b] s0 = Inl e"
  shows "\<exists>j<b. \<exists>s. crout_loop n [0..<j] s0 = Inr s \<and> crout_column n j s = Inl e"
  using assms
proof (induction b)
  case 0
  then show ?case by simp
next
  case (Suc b)
  show ?case
  proof (cases "crout_loop n [0..<b] s0")
    case (Inl e')
    with Suc.prems have "e' = e" by (simp add: crout_loop_snoc)
    with Inl Suc.IH obtain j s where "j < b" "crout_loop n [0..<j] s0 = Inr s"
      "crout_column n j s = Inl e" by blast
    then show ?thesis using less_Suc_eq by blast
  next
    case (Inr s)
    with Suc.prems have "crout_column n b s = Inl e" by (simp add: crout_loop_snoc)
    with Inr show ?thesis by blast
  qed
qed

lemma crout_loop_failure:
  assumes "crout_loop n [0..<j] s0 = Inr s" and "crout_column n j s = Inl e" and "j < b"
  shows "crout_loop n [0..<b] s0 = Inl e"
proof -
  from assms(3) have "[0..<b] = [0..<j] @ j # [Suc j..<b]"
    by (metis le0 less_imp_le_nat upt_add_eq_append le_add_diff_inverse upt_conv_Cons)
  then have "crout_loop n [0..<b] s0
      = (case crout_loop n [0..<j] s0 of Inl e \<Rightarrow> Inl e
         | Inr s' \<Rightarrow> crout_loop n (j # [Suc j..<b]) s')"
    by (simp only: crout_loop_append)
  with assms(1,2) show ?thesis by simp
qed

lemma crout_column_Singular_iff:
  "crout_column n j s = Inl e \<longleftrightarrow> e = Singular \<and> selected_pivot n j s = 0"
  by (auto simp: crout_column_cases selected_pivot_def)

lemma LUDecomp_cases:
  "LUDecomp A n perm0 =
     (if \<exists>i<n. \<forall>j<n. A i j = 0 then Inl NullRow
      else case crout_loop n [0..<n] (initial_state A n perm0 (row_scaling n A)) of
             Inl e \<Rightarrow> Inl e
           | Inr s \<Rightarrow> Inr (mat s, perm s, parity s))"
proof (cases "\<exists>i<n. \<forall>j<n. A i j = 0")
  case True
  then have "scaling_pass A n [0..<n] (\<lambda>_. 0) = Inl NullRow"
    by (simp only: scaling_pass_cases if_True)
  then have "LUDecomp A n perm0 = Inl NullRow" by (simp add: LUDecomp_def)
  then show ?thesis by (simp only: True if_True)
next
  case False
  then have "scaling_pass A n [0..<n] (\<lambda>_. 0) = Inr (row_scaling n A)"
    by (simp only: scaling_pass_cases if_False)
  then have "LUDecomp A n perm0 =
      (case crout_loop n [0..<n] (initial_state A n perm0 (row_scaling n A)) of
             Inl e \<Rightarrow> Inl e
           | Inr s \<Rightarrow> Inr (mat s, perm s, parity s))"
    by (simp add: LUDecomp_def initial_state_def)
  then show ?thesis by (simp only: False if_False)
qed

lemma crout_loop_Singular_iff:
  "crout_loop n [0..<n] s0 = Inl Singular \<longleftrightarrow>
     (\<exists>j<n. \<exists>s. crout_loop n [0..<j] s0 = Inr s \<and> selected_pivot n j s = 0)"
proof
  assume "crout_loop n [0..<n] s0 = Inl Singular"
  from crout_loop_first_failure [OF this]
  show "\<exists>j<n. \<exists>s. crout_loop n [0..<j] s0 = Inr s \<and> selected_pivot n j s = 0"
    by (auto simp: crout_column_Singular_iff)
next
  assume "\<exists>j<n. \<exists>s. crout_loop n [0..<j] s0 = Inr s \<and> selected_pivot n j s = 0"
  then obtain j s where "j < n" "crout_loop n [0..<j] s0 = Inr s" "selected_pivot n j s = 0"
    by blast
  then show "crout_loop n [0..<n] s0 = Inl Singular"
    by (intro crout_loop_failure [where j = j and s = s]) (simp_all add: crout_column_Singular_iff)
qed

lemma LUDecomp_NullRow_iff:
  "LUDecomp A n perm0 = Inl NullRow \<longleftrightarrow> (\<exists>i<n. \<forall>j<n. A i j = 0)"
proof -
  have "e = Singular"
    if "crout_loop n [0..<n] (initial_state A n perm0 (row_scaling n A)) = Inl e" for e
    using that by (rule crout_loop_error)
  then show ?thesis by (auto simp: LUDecomp_cases split: sum.splits)
qed

lemma LUDecomp_Singular_iff:
  "LUDecomp A n perm0 = Inl Singular \<longleftrightarrow>
       \<not> (\<exists>i<n. \<forall>j<n. A i j = 0)
     \<and> (\<exists>j<n. \<exists>s. crout_loop n [0..<j] (initial_state A n perm0 (row_scaling n A)) = Inr s
                 \<and> selected_pivot n j s = 0)"
  using crout_loop_Singular_iff [of n "initial_state A n perm0 (row_scaling n A)"]
  by (auto simp: LUDecomp_cases split: sum.splits)

lemma LUDecomp_success_iff:
  "(\<exists>r. LUDecomp A n perm0 = Inr r) \<longleftrightarrow>
       \<not> (\<exists>i<n. \<forall>j<n. A i j = 0)
     \<and> (\<forall>j<n. \<forall>s. crout_loop n [0..<j] (initial_state A n perm0 (row_scaling n A)) = Inr s
                 \<longrightarrow> selected_pivot n j s \<noteq> 0)"
proof -
  have "(\<exists>r. LUDecomp A n perm0 = Inr r) \<longleftrightarrow>
          LUDecomp A n perm0 \<noteq> Inl NullRow \<and> LUDecomp A n perm0 \<noteq> Inl Singular"
    by (cases "LUDecomp A n perm0") (auto intro: lu_error.exhaust)
  then show ?thesis
    unfolding LUDecomp_NullRow_iff LUDecomp_Singular_iff by blast
qed

text \<open>
  C3: \<open>LUDecomp\<close> throws the null-row error exactly when a row of the input is entirely
  zero (the scaling pass throws it, before any column is processed), and the singularity
  error exactly when no row is null and, at some column, the selected pivot is exactly zero;
  it succeeds exactly when no row is null and every selected pivot is nonzero, however small.
\<close>

theorem LUDecomp_error_iff:
  "(LUDecomp A n perm0 = Inl NullRow \<longleftrightarrow> (\<exists>i<n. \<forall>j<n. A i j = 0))
 \<and> (scaling_pass A n [0..<n] (\<lambda>_. 0) = Inl NullRow \<longleftrightarrow> (\<exists>i<n. \<forall>j<n. A i j = 0))
 \<and> (LUDecomp A n perm0 = Inl Singular \<longleftrightarrow>
       \<not> (\<exists>i<n. \<forall>j<n. A i j = 0)
     \<and> (\<exists>j<n. \<exists>s. crout_loop n [0..<j] (initial_state A n perm0 (row_scaling n A)) = Inr s
                 \<and> selected_pivot n j s = 0))
 \<and> ((\<exists>r. LUDecomp A n perm0 = Inr r) \<longleftrightarrow>
       \<not> (\<exists>i<n. \<forall>j<n. A i j = 0)
     \<and> (\<forall>j<n. \<forall>s. crout_loop n [0..<j] (initial_state A n perm0 (row_scaling n A)) = Inr s
                 \<longrightarrow> selected_pivot n j s \<noteq> 0))"
proof (intro conjI)
  show "scaling_pass A n [0..<n] (\<lambda>_. 0) = Inl NullRow \<longleftrightarrow> (\<exists>i<n. \<forall>j<n. A i j = 0)"
    by (simp add: scaling_pass_cases)
qed (rule LUDecomp_NullRow_iff LUDecomp_Singular_iff LUDecomp_success_iff)+

lemma ex_null_result: "LUDecomp ex_null 2 (\<lambda>_. 0) = Inl NullRow"
proof -
  have "case LUDecomp ex_null 2 (\<lambda>_. 0) of Inl e \<Rightarrow> e = NullRow | Inr r \<Rightarrow> False"
    by code_simp
  then show ?thesis by (simp split: sum.splits)
qed

lemma ex_singular_result: "LUDecomp ex_singular 2 (\<lambda>_. 0) = Inl Singular"
proof -
  have "case LUDecomp ex_singular 2 (\<lambda>_. 0) of Inl e \<Rightarrow> e = Singular | Inr r \<Rightarrow> False"
    by code_simp
  then show ?thesis by (simp split: sum.splits)
qed

lemma ex_tiny_result: "\<exists>r. LUDecomp ex_tiny 1 (\<lambda>_. 0) = Inr r"
proof -
  have "case LUDecomp ex_tiny 1 (\<lambda>_. 0) of Inl e \<Rightarrow> False | Inr r \<Rightarrow> True"
    by code_simp
  then show ?thesis
  proof (cases "LUDecomp ex_tiny 1 (\<lambda>_. 0)")
    case (Inl e)
    with \<open>case LUDecomp ex_tiny 1 (\<lambda>_. 0) of Inl e \<Rightarrow> False | Inr r \<Rightarrow> True\<close>
    show ?thesis by simp
  next
    case (Inr r)
    then show ?thesis by (rule exI)
  qed
qed

theorem LUDecomp_error_iff_witness:
  "LUDecomp ex_null 2 (\<lambda>_. 0) = Inl NullRow
 \<and> (\<exists>i<2. \<forall>j<2. ex_null i j = 0)
 \<and> LUDecomp ex_singular 2 (\<lambda>_. 0) = Inl Singular
 \<and> (\<exists>j<2. \<exists>s. crout_loop 2 [0..<j] (initial_state ex_singular 2 (\<lambda>_. 0) (row_scaling 2 ex_singular)) = Inr s
                 \<and> selected_pivot 2 j s = 0)
 \<and> (\<exists>r. LUDecomp ex_tiny 1 (\<lambda>_. 0) = Inr r)
 \<and> \<not> (\<exists>j<1. \<exists>s. crout_loop 1 [0..<j] (initial_state ex_tiny 1 (\<lambda>_. 0) (row_scaling 1 ex_tiny)) = Inr s
                 \<and> selected_pivot 1 j s = 0)"
proof -
  note tiny = ex_tiny_result
  from LUDecomp_error_iff [of ex_null 2 "\<lambda>_. 0"] ex_null_result
  have a: "\<exists>i<2. \<forall>j<2. ex_null i j = 0" by blast
  from LUDecomp_error_iff [of ex_singular 2 "\<lambda>_. 0"] ex_singular_result
  have b: "\<exists>j<2. \<exists>s. crout_loop 2 [0..<j] (initial_state ex_singular 2 (\<lambda>_. 0) (row_scaling 2 ex_singular)) = Inr s
                 \<and> selected_pivot 2 j s = 0" by blast
  from LUDecomp_error_iff [of ex_tiny 1 "\<lambda>_. 0"] tiny
  have c: "\<not> (\<exists>j<1. \<exists>s. crout_loop 1 [0..<j] (initial_state ex_tiny 1 (\<lambda>_. 0) (row_scaling 1 ex_tiny)) = Inr s
                 \<and> selected_pivot 1 j s = 0)" by blast
  from ex_null_result ex_singular_result tiny a b c show ?thesis by blast
qed

subsection \<open>The vector-valued substitutions\<close>

lemma fold_update_entry:
  "fold (\<lambda>d ys. ys[d := g d (ys ! d)]) [0..<b] xs
     = map (\<lambda>d. if d < b then g d (xs ! d) else xs ! d) [0..<length xs]"
proof (induction b)
  case 0
  show ?case by (simp add: map_nth)
next
  case (Suc b)
  have "(map (\<lambda>d. if d < b then g d (xs ! d) else xs ! d) [0..<length xs])
          [b := g b (map (\<lambda>d. if d < b then g d (xs ! d) else xs ! d) [0..<length xs] ! b)]
      = map (\<lambda>d. if d < Suc b then g d (xs ! d) else xs ! d) [0..<length xs]"
  proof (rule nth_equalityI)
    show "length ((map (\<lambda>d. if d < b then g d (xs ! d) else xs ! d) [0..<length xs])
          [b := g b (map (\<lambda>d. if d < b then g d (xs ! d) else xs ! d) [0..<length xs] ! b)])
        = length (map (\<lambda>d. if d < Suc b then g d (xs ! d) else xs ! d) [0..<length xs])"
      by simp
  next
    fix d
    assume "d < length ((map (\<lambda>d. if d < b then g d (xs ! d) else xs ! d) [0..<length xs])
          [b := g b (map (\<lambda>d. if d < b then g d (xs ! d) else xs ! d) [0..<length xs] ! b)])"
    then have d: "d < length xs" by simp
    show "(map (\<lambda>d. if d < b then g d (xs ! d) else xs ! d) [0..<length xs])
          [b := g b (map (\<lambda>d. if d < b then g d (xs ! d) else xs ! d) [0..<length xs] ! b)] ! d
        = map (\<lambda>d. if d < Suc b then g d (xs ! d) else xs ! d) [0..<length xs] ! d"
      using d by (cases "d = b") (simp_all add: nth_list_update less_Suc_eq)
  qed
  with Suc show ?case by simp
qed

lemma axpy_components_row:
  assumes "i \<noteq> j"
  shows "fold (\<lambda>dd x. x(i := (x i)[dd := x i ! dd - a * x j ! dd])) ds x
       = x(i := fold (\<lambda>d ys. ys[d := ys ! d - a * x j ! d]) ds (x i))"
  using assms by (induction ds arbitrary: x) simp_all

lemma divide_components_row:
  "fold (\<lambda>dd x. x(i := (x i)[dd := x i ! dd / a])) ds x
       = x(i := fold (\<lambda>d ys. ys[d := ys ! d / a]) ds (x i))"
  by (induction ds arbitrary: x) simp_all

lemma axpy_components_apply:
  assumes "i \<noteq> j"
  shows "axpy_components xdim a i j x =
           x(i := map (\<lambda>d. if d < xdim then x i ! d - a * x j ! d else x i ! d) [0..<length (x i)])"
  unfolding axpy_components_def axpy_components_row [OF assms]
  by (simp only: fold_update_entry [where g = "\<lambda>d v. v - a * x j ! d"])

lemma divide_components_apply:
  "divide_components xdim a i x =
     x(i := map (\<lambda>d. if d < xdim then x i ! d / a else x i ! d) [0..<length (x i)])"
  unfolding divide_components_def divide_components_row
  by (simp only: fold_update_entry [where g = "\<lambda>d v. v / a"])

lemma fold_simulation:
  assumes "R s t" and "\<And>i s t. i \<in> set xs \<Longrightarrow> R s t \<Longrightarrow> R (f i s) (g i t)"
  shows "R (fold f xs s) (fold g xs t)"
  using assms by (induction xs arbitrary: s t) simp_all

lemma same_component_axpy:
  assumes "same_component n xdim dd x y" and "i < n" and "i \<noteq> j" and "dd < xdim"
  shows "same_component n xdim dd (axpy_components xdim a i j x) (y(i := y i - a * y j))"
proof -
  from assms(1,2) have len: "length (x i) = xdim"
    by (simp_all add: same_component_def)
  show ?thesis
    using assms len by (auto simp: same_component_def axpy_components_apply [OF assms(3)])
qed

lemma same_component_divide:
  assumes "same_component n xdim dd x y" and "i < n" and "dd < xdim"
  shows "same_component n xdim dd (divide_components xdim a i x) (y(i := y i / a))"
proof -
  from assms(1,2) have len: "length (x i) = xdim"
    by (simp_all add: same_component_def)
  show ?thesis
    using assms len by (auto simp: same_component_def divide_components_apply)
qed

lemma same_component_forward:
  assumes "same_component n (length (x 0)) dd x y" and "dd < length (x 0)"
  shows "same_component n (length (x 0)) dd (forwardSubstitution_vec A x n)
           (forwardSubstitution A y n)"
  unfolding forwardSubstitution_def forwardSubstitution_vec_def Let_def
proof (rule fold_simulation [where R = "same_component n (length (x 0)) dd", OF assms(1)])
  fix i s t assume i: "i \<in> set [1..<n]" and R: "same_component n (length (x 0)) dd s t"
  show "same_component n (length (x 0)) dd
          (fold (\<lambda>j x'. axpy_components (length (x 0)) (A i j) i j x') [0..<i] s)
          (fold (\<lambda>j x. x(i := x i - A i j * x j)) [0..<i] t)"
  proof (rule fold_simulation [where R = "same_component n (length (x 0)) dd", OF R])
    fix j s' t' assume "j \<in> set [0..<i]" and "same_component n (length (x 0)) dd s' t'"
    with i assms(2) show "same_component n (length (x 0)) dd
            (axpy_components (length (x 0)) (A i j) i j s') (t'(i := t' i - A i j * t' j))"
      by (intro same_component_axpy) auto
  qed
qed

lemma same_component_backward:
  assumes "same_component n (length (x 0)) dd x y" and "dd < length (x 0)" and "1 \<le> n"
  shows "same_component n (length (x 0)) dd (backwardSubstitution_vec A x n)
           (backwardSubstitution A y n)"
  unfolding backwardSubstitution_def backwardSubstitution_vec_def Let_def
proof (rule fold_simulation [where R = "same_component n (length (x 0)) dd"])
  show "same_component n (length (x 0)) dd
          (divide_components (length (x 0)) (A (n - 1) (n - 1)) (n - 1) x)
          (y(n - 1 := y (n - 1) / A (n - 1) (n - 1)))"
    using assms by (intro same_component_divide) auto
next
  fix i s t assume i: "i \<in> set (rev [0..<n - 1])"
    and R: "same_component n (length (x 0)) dd s t"
  have "same_component n (length (x 0)) dd
          (fold (\<lambda>j x'. axpy_components (length (x 0)) (A i j) i j x') [i + 1..<n] s)
          (fold (\<lambda>j x. x(i := x i - A i j * x j)) [i + 1..<n] t)"
  proof (rule fold_simulation [where R = "same_component n (length (x 0)) dd", OF R])
    fix j s' t' assume "j \<in> set [i + 1..<n]" and "same_component n (length (x 0)) dd s' t'"
    with i assms(2) show "same_component n (length (x 0)) dd
            (axpy_components (length (x 0)) (A i j) i j s') (t'(i := t' i - A i j * t' j))"
      by (intro same_component_axpy) auto
  qed
  with i assms(2) show "same_component n (length (x 0)) dd
      (divide_components (length (x 0)) (A i i) i
         (fold (\<lambda>j x'. axpy_components (length (x 0)) (A i j) i j x') [i + 1..<n] s))
      ((fold (\<lambda>j x. x(i := x i - A i j * x j)) [i + 1..<n] t)
         (i := fold (\<lambda>j x. x(i := x i - A i j * x j)) [i + 1..<n] t i / A i i))"
    by (intro same_component_divide) auto
qed

text \<open>
  C8: when the first \<open>n\<close> vectors of the right-hand side have the common size \<open>dim\<close>, the
  component \<open>dd < dim\<close> of what the vector overloads of \<open>forwardSubstitution\<close> and
  \<open>backwardSubstitution\<close> leave is what the scalar overloads leave when they run on the
  component \<open>dd\<close> of the input.
\<close>

theorem substitution_vec_componentwise:
  assumes "1 \<le> n" and "\<forall>k<n. length (x k) = length (x 0)" and "dd < length (x 0)"
  shows "(\<forall>i<n. forwardSubstitution_vec A x n i ! dd = forwardSubstitution A (\<lambda>k. x k ! dd) n i)
       \<and> (\<forall>i<n. backwardSubstitution_vec A x n i ! dd = backwardSubstitution A (\<lambda>k. x k ! dd) n i)
       \<and> (\<forall>i<n. length (forwardSubstitution_vec A x n i) = length (x 0)
               \<and> length (backwardSubstitution_vec A x n i) = length (x 0))"
proof -
  have R: "same_component n (length (x 0)) dd x (\<lambda>k. x k ! dd)"
    unfolding same_component_def using assms(2) by blast
  have F: "same_component n (length (x 0)) dd (forwardSubstitution_vec A x n)
          (forwardSubstitution A (\<lambda>k. x k ! dd) n)"
    by (rule same_component_forward [OF R assms(3)])
  have B: "same_component n (length (x 0)) dd (backwardSubstitution_vec A x n)
          (backwardSubstitution A (\<lambda>k. x k ! dd) n)"
    by (rule same_component_backward [OF R assms(3,1)])
  from F have F1: "\<And>k. k < n \<Longrightarrow> length (forwardSubstitution_vec A x n k) = length (x 0)"
    and F2: "\<And>k. forwardSubstitution_vec A x n k ! dd = forwardSubstitution A (\<lambda>k. x k ! dd) n k"
    unfolding same_component_def by blast+
  from B have B1: "\<And>k. k < n \<Longrightarrow> length (backwardSubstitution_vec A x n k) = length (x 0)"
    and B2: "\<And>k. backwardSubstitution_vec A x n k ! dd = backwardSubstitution A (\<lambda>k. x k ! dd) n k"
    unfolding same_component_def by blast+
  show ?thesis
    by (intro conjI allI impI F1 F2 B1 B2)
qed

theorem substitution_vec_componentwise_witness:
  "(1::nat) \<le> 2 \<and> length (ex_rhs 0) = 3 \<and> length (ex_rhs 1) = 3 \<and> (1::nat) < 3
 \<and> forwardSubstitution_vec ex_LU ex_rhs 2 1 ! 1 = forwardSubstitution ex_LU (\<lambda>k. ex_rhs k ! 1) 2 1
 \<and> forwardSubstitution_vec ex_LU ex_rhs 2 1 = [2, 4, 2]
 \<and> backwardSubstitution_vec ex_LU ex_rhs 2 0 ! 1 = backwardSubstitution ex_LU (\<lambda>k. ex_rhs k ! 1) 2 0
 \<and> backwardSubstitution_vec ex_LU ex_rhs 2 0 = [-6, -9, -4]"
proof -
  have n: "(1::nat) \<le> 2" by simp
  have len: "\<forall>k<2. length (ex_rhs k) = length (ex_rhs 0)"
    by (simp add: ex_rhs_def less_Suc_eq numeral_2_eq_2)
  have l: "length (ex_rhs 0) = 3" "length (ex_rhs 1) = 3" by (simp_all add: ex_rhs_def)
  have d: "1 < length (ex_rhs 0)" by (simp add: ex_rhs_def)
  note t = substitution_vec_componentwise [OF n len d, of ex_LU]
  have i: "(1::nat) < 2" "(0::nat) < 2" by simp_all
  have f: "forwardSubstitution_vec ex_LU ex_rhs 2 1 ! 1
             = forwardSubstitution ex_LU (\<lambda>k. ex_rhs k ! 1) 2 1"
    using t i(1) by blast
  have b: "backwardSubstitution_vec ex_LU ex_rhs 2 0 ! 1
             = backwardSubstitution ex_LU (\<lambda>k. ex_rhs k ! 1) 2 0"
    using t i(2) by blast
  have v: "forwardSubstitution_vec ex_LU ex_rhs 2 1 = [2, 4, 2]"
    "backwardSubstitution_vec ex_LU ex_rhs 2 0 = [-6, -9, -4]"
    by code_simp+
  have d': "(1::nat) < 3" by simp
  from n l d' f b v show ?thesis by blast
qed

subsection \<open>The recorded permutation in the factorisation and in the solver\<close>

text \<open>
  C2: the product \<open>L\<cdot>U\<close> of the factors is not the input with its rows in the order
  \<open>perm\<close> records. \<open>LUDecomp\<close> succeeds on the \<open>2 \<times> 2\<close> identity matrix with a zero-filled
  array \<open>perm\<close>, exchanges no rows (the parity flag stays true) and leaves the identity in
  place, so \<open>L\<cdot>U\<close> is the identity, with the second row \<open>(0, 1)\<close>. Both entries of \<open>perm\<close>
  are 0 afterwards (line 54 has left \<open>perm[0]\<close> as it was and stored 0 in \<open>perm[1]\<close>), so the
  second row of \<open>P\<cdot>A\<close> is the first row of the input, \<open>(1, 0)\<close>.
\<close>

theorem LUDecomp_product_not_permuted_input:
  "case LUDecomp ex_id 2 (\<lambda>_. 0) of
     Inl e \<Rightarrow> False
   | Inr (M, p, par) \<Rightarrow>
       [[M 0 0, M 0 1], [M 1 0, M 1 1]] = [[1, 0], [0, 1]] \<and> [p 0, p 1] = [0, 0] \<and> par
     \<and> [mat_mult 2 (lower_part M) (upper_part M) 1 0,
         mat_mult 2 (lower_part M) (upper_part M) 1 1] = [0, 1]
     \<and> [permute_matrix p ex_id 1 0, permute_matrix p ex_id 1 1] = [1, 0]"
  by code_simp

text \<open>
  C1: \<open>LUsolveSystem\<close> does not solve the system of the \<open>2 \<times> 2\<close> identity matrix, which is
  nonsingular, with the right-hand side \<open>(5, 11)\<close>: it succeeds and leaves \<open>(5, 5)\<close> in \<open>vec\<close>,
  and the product of the identity matrix with \<open>(5, 5)\<close> is \<open>(5, 5)\<close>, not \<open>(5, 11)\<close>. The
  array \<open>permutation\<close> holds \<open>0, 0\<close> after \<open>LUDecomp\<close> (line 54), so the gathering loop reads
  \<open>vec_old[0]\<close> twice.
\<close>

theorem LUsolveSystem_not_solution:
  "case LUsolveSystem ex_id 2 ex_b of
     Inl e \<Rightarrow> False
   | Inr (M, x) \<Rightarrow>
       [x 0, x 1] = [5, 5]
     \<and> [mat_vec 2 ex_id x 0, mat_vec 2 ex_id x 1] = [5, 5]
     \<and> [ex_b 0, ex_b 1] = [5, 11]"
  by code_simp

section \<open>Properties of \<open>SolveCG\<close>\<close>

subsection \<open>The matrix-vector product\<close>

lemma fold_accumulate:
  "fold (\<lambda>ki sy. sy(kj := sy kj + f ki)) xs sy = sy(kj := sy kj + sum_list (map f xs))"
  by (induction xs arbitrary: sy) (simp_all add: add.assoc)

lemma fold_assign_upto:
  "fold (\<lambda>kj sy. sy(kj := g kj)) [0..<n] sy = (\<lambda>k. if k < n then g k else sy k)"
  by (induction n) (auto simp: fun_eq_iff)

lemma matrixProduct_upto:
  "fold (\<lambda>kj sy. fold (\<lambda>ki sy. sy(kj := sy kj + f kj ki)) (r kj) (sy(kj := 0))) [0..<n] sy
     = (\<lambda>k. if k < n then sum_list (map (f k) (r k)) else sy k)"
proof -
  have "(\<lambda>kj sy. fold (\<lambda>ki sy. sy(kj := sy kj + f kj ki)) (r kj) (sy(kj := 0)))
      = (\<lambda>kj sy. sy(kj := sum_list (map (f kj) (r kj))))"
    by (intro ext) (simp add: fold_accumulate)
  then show ?thesis by (simp only: fold_assign_upto)
qed

lemma matrixProduct_row:
  "matrixProduct s sx sy k =
     (if k < cg_nn s then (\<Sum>e\<leftarrow>csr_row s k. fst e * sx (snd e)) else sy k)"
proof -
  have "matrixProduct s sx sy =
     (\<lambda>k. if k < cg_nn s
          then sum_list (map (\<lambda>ki. cg_A s ! ki * sx (cg_jcol s ! ki)) [cg_irow s ! k..<cg_irow s ! (k + 1)])
          else sy k)"
    unfolding matrixProduct_def
    by (rule matrixProduct_upto [where f = "\<lambda>kj ki. cg_A s ! ki * sx (cg_jcol s ! ki)"
        and r = "\<lambda>kj. [cg_irow s ! kj..<cg_irow s ! (kj + 1)]"])
  then show ?thesis by (simp add: csr_row_def comp_def)
qed

lemma sum_list_mset_cong:
  assumes "mset xs = mset ys"
  shows "sum_list (map f xs) = (sum_list (map f ys) :: real)"
proof -
  have "sum_mset (image_mset f (mset xs)) = sum_mset (image_mset f (mset ys))"
    using assms by simp
  then show ?thesis by (simp add: sum_mset_sum_list flip: mset_map)
qed

text \<open>
  The rounding on known values: the \<open>double\<close> nearest to \<open>1/10\<close> is \<open>3602879701896397 / 2^55\<close>,
  and the integers above \<open>2^53\<close> are rounded to even multiples.
\<close>

lemma round_double_values:
  "round_double (1 / 10) = 3602879701896397 / 2 ^ 55"
  "round_double (2 ^ 53 + 1) = 2 ^ 53"
  "round_double (2 ^ 53 + 3) = 2 ^ 53 + 4"
  "round_double (10 ^ 16 + 1) = 10 ^ 16"
  "round_double (- (10 ^ 16) - 1) = - (10 ^ 16)"
  by code_simp+

text \<open>The loop in the arithmetic of \<open>double\<close>: the accumulation is a \<open>foldl\<close> in storage order.\<close>

lemma fold_accumulate_with:
  "fold (\<lambda>ki sy. sy(kj := g (sy kj) ki)) xs sy = sy(kj := foldl g (sy kj) xs)"
  by (induction xs arbitrary: sy) simp_all

lemma matrixProduct_double_upto:
  "fold (\<lambda>kj sy. fold (\<lambda>ki sy. sy(kj := g kj (sy kj) ki)) (r kj) (sy(kj := 0))) [0..<n] sy
     = (\<lambda>k. if k < n then foldl (g k) 0 (r k) else sy k)"
proof -
  have "(\<lambda>kj sy. fold (\<lambda>ki sy. sy(kj := g kj (sy kj) ki)) (r kj) (sy(kj := 0)))
      = (\<lambda>kj sy. sy(kj := foldl (g kj) 0 (r kj)))"
    by (intro ext) (simp add: fold_accumulate_with)
  then show ?thesis by (simp only: fold_assign_upto)
qed

lemma matrixProduct_double_slots:
  "matrixProduct_double s sx sy k =
     (if k < cg_nn s
      then foldl (\<lambda>acc ki. round_double (acc + round_double (cg_A s ! ki * sx (cg_jcol s ! ki))))
             0 [cg_irow s ! k..<cg_irow s ! (k + 1)]
      else sy k)"
proof -
  have "matrixProduct_double s sx sy =
     (\<lambda>k. if k < cg_nn s
          then foldl (\<lambda>acc ki. round_double (acc + round_double (cg_A s ! ki * sx (cg_jcol s ! ki))))
                 0 [cg_irow s ! k..<cg_irow s ! (k + 1)]
          else sy k)"
    unfolding matrixProduct_double_def
    by (rule matrixProduct_double_upto
        [where g = "\<lambda>kj acc ki. round_double (acc + round_double (cg_A s ! ki * sx (cg_jcol s ! ki)))"
           and r = "\<lambda>kj. [cg_irow s ! kj..<cg_irow s ! (kj + 1)]"])
  then show ?thesis by simp
qed

lemma matrixProduct_double_row:
  "matrixProduct_double s sx sy k =
     (if k < cg_nn s
      then foldl (\<lambda>acc e. round_double (acc + round_double (fst e * sx (snd e)))) 0 (csr_row s k)
      else sy k)"
  by (simp add: matrixProduct_double_slots csr_row_def foldl_map)

text \<open>Where no product and no partial sum is rounded, the rounded sum is the exact one.\<close>

lemma foldl_round_exact:
  assumes "\<forall>x\<in>set xs. round_double (t x) = t x"
    and "\<forall>m\<le>length xs. round_double (sum_list (map t (take m xs))) = sum_list (map t (take m xs))"
  shows "foldl (\<lambda>acc x. round_double (acc + round_double (t x))) 0 xs = sum_list (map t xs)"
  using assms
proof (induction xs rule: rev_induct)
  case Nil
  show ?case by simp
next
  case (snoc x xs)
  have "\<forall>m\<le>length xs. round_double (sum_list (map t (take m xs))) = sum_list (map t (take m xs))"
  proof (intro allI impI)
    fix m assume m: "m \<le> length xs"
    then have "m \<le> length (xs @ [x])" by simp
    with snoc.prems(2)
    have "round_double (sum_list (map t (take m (xs @ [x])))) = sum_list (map t (take m (xs @ [x])))"
      by blast
    with m show "round_double (sum_list (map t (take m xs))) = sum_list (map t (take m xs))"
      by simp
  qed
  with snoc.IH snoc.prems(1)
  have IH: "foldl (\<lambda>acc x. round_double (acc + round_double (t x))) 0 xs = sum_list (map t xs)"
    by simp
  from snoc.prems(1) have x: "round_double (t x) = t x" by simp
  have "length (xs @ [x]) \<le> length (xs @ [x])" by simp
  with snoc.prems(2)
  have "round_double (sum_list (map t (take (length (xs @ [x])) (xs @ [x]))))
      = sum_list (map t (take (length (xs @ [x])) (xs @ [x])))"
    by blast
  then have total: "round_double (sum_list (map t xs) + t x) = sum_list (map t xs) + t x"
    by simp
  show ?case by (simp add: IH x total)
qed

text \<open>
  C5: on an attached structure with a row-start array of length \<open>n+1\<close>, \<open>matrixProduct\<close> leaves
  in \<open>sy[k]\<close>, for every row \<open>k < n\<close>, the sum over the slots \<open>ki\<close> from \<open>irow_[k]\<close> up to
  \<open>irow_[k+1]\<close> of \<open>A_[ki] * sx[jcol_[ki]]\<close>, accumulated from 0 in the order of the slots, every
  product and every partial sum rounded to \<open>double\<close>. Where none of them is rounded the value
  is the exact sum; and the exact sum, which is what the loop computes in exact arithmetic, is
  the same for every structure that stores the same entries of row \<open>k\<close> in another order.
\<close>

theorem matrixProduct_row_sum:
  fixes s :: SolveCG and sx sy :: "nat \<Rightarrow> real"
  assumes "csr_wf s" and "k < cg_nn s"
  defines "slots \<equiv> [cg_irow s ! k..<cg_irow s ! (k + 1)]"
    and "t \<equiv> \<lambda>ki. cg_A s ! ki * sx (cg_jcol s ! ki)"
  shows "matrixProduct_double s sx sy k
           = foldl (\<lambda>acc ki. round_double (acc + round_double (t ki))) 0 slots
       \<and> ((\<forall>ki\<in>set slots. round_double (t ki) = t ki)
            \<and> (\<forall>m\<le>length slots. round_double (sum_list (map t (take m slots)))
                                     = sum_list (map t (take m slots)))
          \<longrightarrow> matrixProduct_double s sx sy k = (\<Sum>ki\<leftarrow>slots. t ki))
       \<and> matrixProduct s sx sy k = (\<Sum>ki\<leftarrow>slots. t ki)
       \<and> (\<forall>s'. csr_wf s' \<and> cg_nn s' = cg_nn s \<and> mset (csr_row s' k) = mset (csr_row s k)
               \<longrightarrow> matrixProduct s' sx sy k = matrixProduct s sx sy k)"
proof (intro conjI impI)
  show slots: "matrixProduct_double s sx sy k
           = foldl (\<lambda>acc ki. round_double (acc + round_double (t ki))) 0 slots"
    using assms(2) by (simp add: matrixProduct_double_slots slots_def t_def)
  assume "(\<forall>ki\<in>set slots. round_double (t ki) = t ki)
            \<and> (\<forall>m\<le>length slots. round_double (sum_list (map t (take m slots)))
                                     = sum_list (map t (take m slots)))"
  then have "foldl (\<lambda>acc ki. round_double (acc + round_double (t ki))) 0 slots
               = sum_list (map t slots)"
    by (intro foldl_round_exact) simp_all
  with slots show "matrixProduct_double s sx sy k = (\<Sum>ki\<leftarrow>slots. t ki)" by simp
next
  show "matrixProduct s sx sy k = (\<Sum>ki\<leftarrow>slots. t ki)"
    using assms(2) by (simp add: matrixProduct_row csr_row_def comp_def slots_def t_def)
  show "\<forall>s'. csr_wf s' \<and> cg_nn s' = cg_nn s \<and> mset (csr_row s' k) = mset (csr_row s k)
               \<longrightarrow> matrixProduct s' sx sy k = matrixProduct s sx sy k"
    using assms(2) by (auto simp: matrixProduct_row intro: sum_list_mset_cong)
qed

lemma round_double_small: "map round_double [0, 2, 4] = [0, 2, 4]"
  by code_simp

theorem matrixProduct_row_sum_witness:
  "csr_wf cg_example \<and> (0::nat) < cg_nn cg_example \<and> csr_wf cg_example' \<and>
   mset (csr_row cg_example' 0) = mset (csr_row cg_example 0) \<and>
   matrixProduct_double cg_example (\<lambda>j. real j + 1) (\<lambda>_. 7) 0 = 4 \<and>
   matrixProduct cg_example (\<lambda>j. real j + 1) (\<lambda>_. 7) 0 = 4 \<and>
   matrixProduct cg_example' (\<lambda>j. real j + 1) (\<lambda>_. 7) 0 = 4"
proof -
  have wf: "csr_wf cg_example" "csr_wf cg_example'"
    by (simp_all add: csr_wf_def cg_example_def cg_example'_def upt_rec)
  have k: "0 < cg_nn cg_example" by (simp add: cg_example_def)
  have ms: "mset (csr_row cg_example' 0) = mset (csr_row cg_example 0)"
    by (simp add: csr_row_def cg_example_def cg_example'_def upt_rec)
  have nn: "cg_nn cg_example' = cg_nn cg_example" by (simp add: cg_example_def cg_example'_def)
  have slots: "[cg_irow cg_example ! 0..<cg_irow cg_example ! (0 + 1)] = [0, 1]"
    by (simp add: cg_example_def upt_rec)
  have terms: "(\<lambda>ki. cg_A cg_example ! ki * (real (cg_jcol cg_example ! ki) + 1)) 0 = 2"
    "(\<lambda>ki. cg_A cg_example ! ki * (real (cg_jcol cg_example ! ki) + 1)) 1 = 2"
    by (simp_all add: cg_example_def)
  have r: "round_double 0 = 0" "round_double 2 = 2" "round_double 4 = 4"
    using round_double_small by simp_all
  note t = matrixProduct_row_sum [OF wf(1) k, where sx = "\<lambda>j. real j + 1" and sy = "\<lambda>_. 7",
      unfolded slots]
  have exact: "\<forall>m\<le>length [0::nat, 1].
      round_double (sum_list (map (\<lambda>ki. cg_A cg_example ! ki * (real (cg_jcol cg_example ! ki) + 1))
                      (take m [0, 1])))
       = sum_list (map (\<lambda>ki. cg_A cg_example ! ki * (real (cg_jcol cg_example ! ki) + 1))
                      (take m [0, 1]))"
  proof (intro allI impI)
    fix m :: nat assume "m \<le> length [0::nat, 1]"
    then have "m = 0 \<or> m = 1 \<or> m = 2" by auto
    then show "round_double (sum_list (map (\<lambda>ki. cg_A cg_example ! ki * (real (cg_jcol cg_example ! ki) + 1))
                      (take m [0, 1])))
       = sum_list (map (\<lambda>ki. cg_A cg_example ! ki * (real (cg_jcol cg_example ! ki) + 1))
                      (take m [0, 1]))"
      using terms r by auto
  qed
  have prods: "\<forall>ki\<in>set [0::nat, 1].
      round_double (cg_A cg_example ! ki * (real (cg_jcol cg_example ! ki) + 1))
        = cg_A cg_example ! ki * (real (cg_jcol cg_example ! ki) + 1)"
    using terms r by simp
  from t exact prods
  have "matrixProduct_double cg_example (\<lambda>j. real j + 1) (\<lambda>_. 7) 0
          = (\<Sum>ki\<leftarrow>[0, 1]. cg_A cg_example ! ki * (real (cg_jcol cg_example ! ki) + 1))"
    by blast
  then have d: "matrixProduct_double cg_example (\<lambda>j. real j + 1) (\<lambda>_. 7) 0 = 4"
    using terms by simp
  from t have "matrixProduct cg_example (\<lambda>j. real j + 1) (\<lambda>_. 7) 0
          = (\<Sum>ki\<leftarrow>[0, 1]. cg_A cg_example ! ki * (real (cg_jcol cg_example ! ki) + 1))"
    by blast
  then have v: "matrixProduct cg_example (\<lambda>j. real j + 1) (\<lambda>_. 7) 0 = 4"
    using terms by simp
  have "matrixProduct cg_example' (\<lambda>j. real j + 1) (\<lambda>_. 7) 0 = matrixProduct cg_example (\<lambda>j. real j + 1) (\<lambda>_. 7) 0"
    using t wf(2) nn ms by blast
  with d v wf k ms show ?thesis by simp
qed

text \<open>
  In the arithmetic of \<open>double\<close> the value depends on the order of the entries within the
  row: the two structures \<open>cg_spd\<close> and \<open>cg_spd'\<close> hold the same entries in every row, and
  \<open>matrixProduct\<close> leaves 0 in \<open>sy[0]\<close> for the first and 1 for the second (\<open>10^16 + 1\<close> is
  rounded to \<open>10^16\<close>).
\<close>

lemma cg_spd_rounded_rows:
  "foldl (\<lambda>acc e. round_double (acc + round_double (fst e * cg_sx (snd e)))) 0 (csr_row cg_spd 0) = 0"
  "foldl (\<lambda>acc e. round_double (acc + round_double (fst e * cg_sx (snd e)))) 0 (csr_row cg_spd' 0) = 1"
  by code_simp+

theorem matrixProduct_order_counterexample:
  "csr_wf cg_spd \<and> csr_wf cg_spd' \<and> cg_nn cg_spd' = cg_nn cg_spd
 \<and> map (\<lambda>k. mset (csr_row cg_spd' k)) [0, 1, 2] = map (\<lambda>k. mset (csr_row cg_spd k)) [0, 1, 2]
 \<and> matrixProduct_double cg_spd cg_sx (\<lambda>_. 0) 0 = 0
 \<and> matrixProduct_double cg_spd' cg_sx (\<lambda>_. 0) 0 = 1"
proof -
  have wf: "csr_wf cg_spd \<and> csr_wf cg_spd' \<and> cg_nn cg_spd' = cg_nn cg_spd"
    by code_simp
  have ms: "map (\<lambda>k. mset (csr_row cg_spd' k)) [0, 1, 2] = map (\<lambda>k. mset (csr_row cg_spd k)) [0, 1, 2]"
    by (simp add: csr_row_def cg_spd_def cg_spd'_def upt_rec add_mset_commute)
  have n: "0 < cg_nn cg_spd" "0 < cg_nn cg_spd'" by (simp_all add: cg_spd_def cg_spd'_def)
  have "matrixProduct_double cg_spd cg_sx (\<lambda>_. 0) 0 = 0"
    "matrixProduct_double cg_spd' cg_sx (\<lambda>_. 0) 0 = 1"
    using n by (simp_all only: matrixProduct_double_row cg_spd_rounded_rows if_True)
  with wf ms show ?thesis by simp
qed

subsection \<open>Attaching a matrix\<close>











section \<open>Properties of \<open>CrossTangentOffset::evalcrtan\<close>\<close>

lemma pt_add_self: "pt_add p p = pt_scale 2 p"
  by (induction p) (simp_all add: pt_add_def pt_scale_def)

text \<open>
  C7: the blended cross-tangent at \<open>t\<close> is \<open>blend1(t)\<cdot>tangcv1(t) + blend2(t)\<cdot>tangcv2(t)\<close>,
  component by component; when both blending functions are identically 1 and the two
  cross-tangent curves are the same curve, it is twice that curve's value at \<open>t\<close>.
\<close>

theorem evalcrtan_blend:
  assumes "length (tangcv1 c t) = length (tangcv2 c t)"
  shows "length (evalcrtan c t) = length (tangcv1 c t)
       \<and> (\<forall>d<length (tangcv1 c t).
            evalcrtan c t ! d = blend1 c t * tangcv1 c t ! d + blend2 c t * tangcv2 c t ! d)
       \<and> ((\<forall>u. blend1 c u = 1) \<and> (\<forall>u. blend2 c u = 1) \<and> tangcv1 c = tangcv2 c
            \<longrightarrow> evalcrtan c t = pt_scale 2 (tangcv1 c t))"
proof (intro conjI allI impI)
  show "length (evalcrtan c t) = length (tangcv1 c t)"
    using assms by (simp add: evalcrtan_def pt_add_def pt_scale_def)
next
  fix d assume "d < length (tangcv1 c t)"
  then show "evalcrtan c t ! d = blend1 c t * tangcv1 c t ! d + blend2 c t * tangcv2 c t ! d"
    using assms by (simp add: evalcrtan_def pt_add_def pt_scale_def)
next
  assume h: "(\<forall>u. blend1 c u = 1) \<and> (\<forall>u. blend2 c u = 1) \<and> tangcv1 c = tangcv2 c"
  have "pt_scale 1 p = p" for p by (induction p) (simp_all add: pt_scale_def)
  with h show "evalcrtan c t = pt_scale 2 (tangcv1 c t)"
    by (simp add: evalcrtan_def pt_add_self)
qed

theorem evalcrtan_blend_witness:
  "length (tangcv1 cto_example 3) = length (tangcv2 cto_example 3)
   \<and> tangcv1 cto_example = tangcv2 cto_example
   \<and> blend1 cto_example 3 = 1 \<and> blend2 cto_example 3 = 1
   \<and> evalcrtan cto_example 3 = [6, 2, 0]"
proof -
  have l: "length (tangcv1 cto_example 3) = length (tangcv2 cto_example 3)"
    by (simp add: cto_example_def)
  have h: "(\<forall>u. blend1 cto_example u = 1) \<and> (\<forall>u. blend2 cto_example u = 1)
           \<and> tangcv1 cto_example = tangcv2 cto_example"
    by (simp add: cto_example_def)
  from evalcrtan_blend [OF l] h have "evalcrtan cto_example 3 = pt_scale 2 (tangcv1 cto_example 3)"
    by blast
  then have "evalcrtan cto_example 3 = [6, 2, 0]"
    by (simp add: cto_example_def pt_scale_def)
  with l h show ?thesis by simp
qed

end
